theory Spec2Isabelle
  imports Complex_Main
begin

section \<open>Data model\<close>

text \<open>
  The Prisma schema stores both status columns as plain strings; the values the backend
  writes and the frontend types name are the six below.
\<close>

datatype status = PENDING | RUNNING | COMPLETED | FAILED | CANCELLED | SKIPPED

text \<open>
  Rows of the \<open>Deployment\<close> and \<open>DeploymentStep\<close> tables. Timestamps are
  milliseconds since the epoch. The \<open>logs\<close> column of a step holds
  \<open>JSON.stringify\<close> of an array of strings; the model keeps the array.
\<close>

record Deployment =
  d_id :: string
  d_userId :: string
  d_modpackName :: string
  d_modpackUrl :: string
  d_status :: status
  d_startedAt :: int
  d_completedAt :: "int option"
  d_duration :: "int option"
  d_logs :: "string option"
  d_errorMsg :: "string option"

record DeploymentStep =
  s_id :: string
  s_deploymentId :: string
  s_name :: string
  s_description :: string
  s_status :: status
  s_startedAt :: "int option"
  s_completedAt :: "int option"
  s_logs :: "string list option"
  s_order :: int

text \<open>
  Rows of the \<open>User\<close> table. \<open>Deployment.userId\<close> is a foreign key into it, and
  \<open>DeploymentStep.deploymentId\<close> one into \<open>Deployment\<close>, both \<open>ON DELETE RESTRICT\<close>.
\<close>

record User =
  u_id :: string
  u_username :: string
  u_password :: string
  u_email :: "string option"
  u_role :: string
  u_status :: string
  u_createdAt :: int
  u_updatedAt :: int

text \<open>The interface \<open>DeploymentPlan\<close> of \<open>utils/deployment.ts\<close>.\<close>

record DeploymentPlan =
  name :: string
  description :: string
  estimatedDuration :: nat

section \<open>Plan builder\<close>

text \<open>\<open>String.prototype.includes\<close>: the argument occurs as a contiguous substring.\<close>

fun startsWith :: "string \<Rightarrow> string \<Rightarrow> bool" where
  "startsWith s [] = True"
| "startsWith [] (c # cs) = False"
| "startsWith (x # xs) (c # cs) = (x = c \<and> startsWith xs cs)"

fun includes_str :: "string \<Rightarrow> string \<Rightarrow> bool" where
  "includes_str [] t = (t = [])"
| "includes_str (x # xs) t = (startsWith (x # xs) t \<or> includes_str xs t)"

text \<open>\<open>xs.splice(n, 0, x)\<close>: insert \<open>x\<close> before position \<open>n\<close> (at the end when
  \<open>n\<close> is past it).\<close>

definition splice_insert :: "nat \<Rightarrow> 'a \<Rightarrow> 'a list \<Rightarrow> 'a list" where
  "splice_insert n x xs = take n xs @ x # drop n xs"

definition isLarge :: "string \<Rightarrow> bool" where
  "isLarge modpackUrl = (includes_str modpackUrl ''rlcraft'' \<or> includes_str modpackUrl ''all-the-mods'')"

definition isTech :: "string \<Rightarrow> bool" where
  "isTech modpackUrl = (includes_str modpackUrl ''tekkit'' \<or> includes_str modpackUrl ''industrialcraft'')"

definition basePlan :: "string \<Rightarrow> DeploymentPlan list" where
  "basePlan modpackUrl =
    [ \<lparr>name = ''Validate URL'',
       description = ''Checking modpack URL and extracting metadata'',
       estimatedDuration = 3\<rparr>,
      \<lparr>name = ''Download Modpack'',
       description = ''Downloading modpack files and dependencies'',
       estimatedDuration = (if isLarge modpackUrl then 45 else 20)\<rparr>,
      \<lparr>name = ''Extract Files'',
       description = ''Extracting modpack archive and organizing files'',
       estimatedDuration = 10\<rparr>,
      \<lparr>name = ''Install Forge/Fabric'',
       description = ''Setting up mod loader and dependencies'',
       estimatedDuration = 15\<rparr>,
      \<lparr>name = ''Configure Server'',
       description = ''Applying server configurations and settings'',
       estimatedDuration = 8\<rparr>,
      \<lparr>name = ''Allocate Resources'',
       description = ''Setting up server resources and memory allocation'',
       estimatedDuration = 5\<rparr>,
      \<lparr>name = ''Start Server'',
       description = ''Starting Minecraft server and running initial checks'',
       estimatedDuration = 20\<rparr> ]"

definition techStep :: DeploymentPlan where
  "techStep =
     \<lparr>name = ''Install Tech Mods'',
      description = ''Installing and configuring technical mod dependencies'',
      estimatedDuration = 12\<rparr>"

definition createDeploymentPlan :: "string \<Rightarrow> DeploymentPlan list" where
  "createDeploymentPlan modpackUrl =
     (if isTech modpackUrl then splice_insert 4 techStep (basePlan modpackUrl)
      else basePlan modpackUrl)"

section \<open>The world: record store, broadcaster, clock, randomness\<close>

text \<open>
  A \<open>findFirst\<close> with \<open>include: { steps: { orderBy: { order: 'asc' } } }\<close> returns the
  deployment row together with its steps: the type \<open>Deployment & { steps: DeploymentStep[] }\<close>.
\<close>

record DeploymentWithSteps = Deployment +
  steps :: "DeploymentStep list"

definition with_steps :: "Deployment \<Rightarrow> DeploymentStep list \<Rightarrow> DeploymentWithSteps" where
  "with_steps r xs =
     \<lparr>d_id = d_id r, d_userId = d_userId r, d_modpackName = d_modpackName r,
      d_modpackUrl = d_modpackUrl r, d_status = d_status r, d_startedAt = d_startedAt r,
      d_completedAt = d_completedAt r, d_duration = d_duration r, d_logs = d_logs r,
      d_errorMsg = d_errorMsg r, steps = xs\<rparr>"

record serverInfo =
  ip :: string
  port :: nat
  players :: string

text \<open>
  The four named events and their payloads: \<open>deployment-status\<close> (deploymentId, status,
  message), \<open>step-update\<close> (deploymentId, stepId, status, message, error),
  \<open>deployment-complete\<close> (deploymentId, status, message, duration, serverInfo) and
  \<open>deployment-error\<close> (error).
\<close>

datatype event =
    deployment_status string status string
  | step_update string string status string "string option"
  | deployment_complete string status string int "serverInfo option"
  | deployment_error string

text \<open>\<open>io.to(room).emit\<close> addresses a room, \<open>socket.emit\<close> the requesting socket.\<close>

datatype channel = Room string | Socket string

text \<open>
  The environment supplies what the code reads from outside: the successive readings of
  the wall clock (\<open>Date.now()\<close>, \<open>new Date()\<close>, the database's \<open>now()\<close>), the
  successive results of \<open>Math.random()\<close>, and the successive identifiers \<open>cuid()\<close>
  generates. The world counts how many of each have been consumed. The environment also
  holds \<open>String.prototype.toLowerCase\<close>, whose table of Unicode case mappings belongs to
  the runtime.
\<close>

record env =
  clk :: "nat \<Rightarrow> int"
  rnd :: "nat \<Rightarrow> real"
  cuid :: "nat \<Rightarrow> string"
  toLowerCase :: "string \<Rightarrow> string"

record world =
  db_user :: "User list"
  db_deployment :: "Deployment list"
  db_deploymentStep :: "DeploymentStep list"
  emitted :: "(channel \<times> event) list"
  clock_reads :: nat
  random_draws :: nat
  ids_made :: nat

definition now :: "env \<Rightarrow> world \<Rightarrow> int" where
  "now e w = clk e (clock_reads w)"

definition tick :: "world \<Rightarrow> world" where
  "tick w = w\<lparr>clock_reads := Suc (clock_reads w)\<rparr>"

definition random :: "env \<Rightarrow> world \<Rightarrow> real" where
  "random e w = rnd e (random_draws w)"

definition drawn :: "world \<Rightarrow> world" where
  "drawn w = w\<lparr>random_draws := Suc (random_draws w)\<rparr>"

definition emit :: "channel \<Rightarrow> event \<Rightarrow> world \<Rightarrow> world" where
  "emit c ev w = w\<lparr>emitted := emitted w @ [(c, ev)]\<rparr>"

definition userRoom :: "string \<Rightarrow> channel" where
  "userRoom userId = Room (''user:'' @ userId)"

text \<open>
  Prisma rejects an awaited call by throwing. A throw leaves the world as it was at that
  point, so a failed operation returns the error together with that world.
\<close>

datatype error = RecordNotFound | UniqueConstraint | ForeignKeyConstraint

type_synonym outcome = "(error \<times> world) + world"

text \<open>\<open>prisma.deployment.update({ where: { id }, data })\<close>: throws when no row has the id.\<close>

definition deployment_update :: "string \<Rightarrow> (Deployment \<Rightarrow> Deployment) \<Rightarrow> world \<Rightarrow> outcome" where
  "deployment_update i f w =
     (if list_ex (\<lambda>r. d_id r = i) (db_deployment w)
      then Inr (w\<lparr>db_deployment := map (\<lambda>r. if d_id r = i then f r else r) (db_deployment w)\<rparr>)
      else Inl (RecordNotFound, w))"

definition deploymentStep_update :: "string \<Rightarrow> (DeploymentStep \<Rightarrow> DeploymentStep) \<Rightarrow> world \<Rightarrow> outcome" where
  "deploymentStep_update i f w =
     (if list_ex (\<lambda>r. s_id r = i) (db_deploymentStep w)
      then Inr (w\<lparr>db_deploymentStep := map (\<lambda>r. if s_id r = i then f r else r) (db_deploymentStep w)\<rparr>)
      else Inl (RecordNotFound, w))"

text \<open>
  \<open>create\<close>: the primary key is unique, a deployment must reference an existing user and
  a step an existing deployment.
\<close>

definition deployment_create :: "Deployment \<Rightarrow> world \<Rightarrow> outcome" where
  "deployment_create row w =
     (if list_ex (\<lambda>r. d_id r = d_id row) (db_deployment w) then Inl (UniqueConstraint, w)
      else if \<not> list_ex (\<lambda>r. u_id r = d_userId row) (db_user w)
      then Inl (ForeignKeyConstraint, w)
      else Inr (w\<lparr>db_deployment := db_deployment w @ [row]\<rparr>))"

definition deploymentStep_create :: "DeploymentStep \<Rightarrow> world \<Rightarrow> outcome" where
  "deploymentStep_create row w =
     (if list_ex (\<lambda>r. s_id r = s_id row) (db_deploymentStep w) then Inl (UniqueConstraint, w)
      else if \<not> list_ex (\<lambda>r. d_id r = s_deploymentId row) (db_deployment w)
      then Inl (ForeignKeyConstraint, w)
      else Inr (w\<lparr>db_deploymentStep := db_deploymentStep w @ [row]\<rparr>))"

definition stepsOf :: "string \<Rightarrow> world \<Rightarrow> DeploymentStep list" where
  "stepsOf i w = sort_key s_order (filter (\<lambda>s. s_deploymentId s = i) (db_deploymentStep w))"

text \<open>\<open>findFirst({ where: { id, userId }, include: steps by order })\<close>.\<close>

definition findFirst_deployment :: "string \<Rightarrow> string \<Rightarrow> world \<Rightarrow> DeploymentWithSteps option" where
  "findFirst_deployment i u w =
     (case find (\<lambda>r. d_id r = i \<and> d_userId r = u) (db_deployment w) of
        None \<Rightarrow> None
      | Some r \<Rightarrow> Some (with_steps r (stepsOf (d_id r) w)))"

text \<open>\<open>findUnique({ where: { id }, include: steps by order })\<close>.\<close>

definition findUnique_deployment :: "string \<Rightarrow> world \<Rightarrow> DeploymentWithSteps option" where
  "findUnique_deployment i w =
     (case find (\<lambda>r. d_id r = i) (db_deployment w) of
        None \<Rightarrow> None
      | Some r \<Rightarrow> Some (with_steps r (stepsOf (d_id r) w)))"

section \<open>Formatting helpers\<close>

text \<open>Decimal digits of a natural number, as template strings print it.\<close>

function show_nat :: "nat \<Rightarrow> string" where
  "show_nat n =
     (if n < 10 then [char_of (48 + n)] else show_nat (n div 10) @ [char_of (48 + n mod 10)])"
  by pat_completeness auto
termination
  by (relation "measure (\<lambda>n. n)") auto

text \<open>
  A JavaScript number is an IEEE 754 double, here the real number it denotes. The result
  of an arithmetic operation is the exact result rounded to the nearest double, to the
  one with the even significand on a tie. \<open>scale_up\<close> counts the doublings, at most
  1074, that bring a value below \<open>2^53\<close> to \<open>2^52\<close> or above, \<open>scale_down\<close> the
  halvings that bring a larger one below \<open>2^53\<close>: a double has 53 significant bits and
  no bit below \<open>2^-1074\<close>. Values beyond the largest double do not arise here.
\<close>

definition round_half_even :: "real \<Rightarrow> int" where
  "round_half_even y =
     (let f = \<lfloor>y\<rfloor> in
      if y - of_int f < 1 / 2 then f
      else if 1 / 2 < y - of_int f then f + 1
      else if even f then f else f + 1)"

function scale_up :: "nat \<Rightarrow> real \<Rightarrow> nat" where
  "scale_up n x = (if n = 0 \<or> 2 ^ 52 \<le> x then 0 else Suc (scale_up (n - 1) (2 * x)))"
  by pat_completeness auto
termination
  by (relation "measure fst") auto

function scale_down :: "nat \<Rightarrow> real \<Rightarrow> nat" where
  "scale_down n x = (if n = 0 \<or> x < 2 ^ 53 then 0 else Suc (scale_down (n - 1) (x / 2)))"
  by pat_completeness auto
termination
  by (relation "measure fst") auto

declare scale_up.simps [simp del] scale_down.simps [simp del]

definition nearest_double :: "real \<Rightarrow> real" where
  "nearest_double x =
     (if 2 ^ 53 \<le> x
      then (let k = scale_down 971 x in of_int (round_half_even (x / 2 ^ k)) * 2 ^ k)
      else (let k = scale_up 1074 x in of_int (round_half_even (x * 2 ^ k)) / 2 ^ k))"

definition to_double :: "real \<Rightarrow> real" where
  "to_double x = (if x < 0 then - nearest_double (- x) else nearest_double x)"

text \<open>
  \<open>x.toFixed(1)\<close> for \<open>x \<ge> 0\<close>: the integer \<open>n\<close> with \<open>n / 10\<close> nearest to the value
  of the double \<open>x\<close>, the larger one on a tie, printed with one decimal.
\<close>

definition toFixed1 :: "real \<Rightarrow> string" where
  "toFixed1 x =
     (let n = nat \<lfloor>x * 10 + 1 / 2\<rfloor> in show_nat (n div 10) @ ''.'' @ show_nat (n mod 10))"

text \<open>\<open>toLowerCase()\<close> on the ASCII range, for the environments of the examples.\<close>

definition toLowerCase_char :: "char \<Rightarrow> char" where
  "toLowerCase_char c =
     (let n = (of_char c :: nat) in if 65 \<le> n \<and> n \<le> 90 then char_of (n + 32) else c)"

text \<open>
  A string is held as its UTF-8 bytes. The class \<open>\s\<close> has the ASCII characters 9 to
  13 and 32, and U+00A0, U+1680, U+2000 to U+200A, U+2028, U+2029, U+202F, U+205F, U+3000
  and U+FEFF. \<open>whiteSpaceAt s\<close> is the number of bytes of the white space character
  \<open>s\<close> begins with, and 0 when it begins with none.
\<close>

definition isSpace :: "char \<Rightarrow> bool" where
  "isSpace c = (let n = (of_char c :: nat) in n = 32 \<or> (9 \<le> n \<and> n \<le> 13))"

definition whiteSpaceAt :: "string \<Rightarrow> nat" where
  "whiteSpaceAt s =
     (if s = [] then 0
      else if isSpace (hd s) then 1
      else if startsWith s [CHR 0xC2, CHR 0xA0] then 2
      else if startsWith s [CHR 0xE1, CHR 0x9A, CHR 0x80] \<or>
              startsWith s [CHR 0xE2, CHR 0x80, CHR 0xA8] \<or>
              startsWith s [CHR 0xE2, CHR 0x80, CHR 0xA9] \<or>
              startsWith s [CHR 0xE2, CHR 0x80, CHR 0xAF] \<or>
              startsWith s [CHR 0xE2, CHR 0x81, CHR 0x9F] \<or>
              startsWith s [CHR 0xE3, CHR 0x80, CHR 0x80] \<or>
              startsWith s [CHR 0xEF, CHR 0xBB, CHR 0xBF] then 3
      else if startsWith s [CHR 0xE2, CHR 0x80] \<and> 2 < length s \<and>
              0x80 \<le> (of_char (s ! 2) :: nat) \<and> (of_char (s ! 2) :: nat) \<le> 0x8A then 3
      else 0)"

text \<open>
  \<open>s.replace(/\s+/g, '-')\<close>: every maximal run of white space becomes one dash.
  \<open>inRun\<close> says that the character before was white space, \<open>skip\<close> how many bytes of
  it are still to pass.
\<close>

fun replace_from :: "bool \<Rightarrow> nat \<Rightarrow> string \<Rightarrow> string" where
  "replace_from inRun skip [] = []"
| "replace_from inRun skip (c # cs) =
     (if 0 < skip then replace_from inRun (skip - 1) cs
      else (let n = whiteSpaceAt (c # cs) in
            if n = 0 then c # replace_from False 0 cs
            else if inRun then replace_from True (n - 1) cs
            else CHR ''-'' # replace_from True (n - 1) cs))"

definition replace_spaces :: "string \<Rightarrow> string" where
  "replace_spaces s = replace_from False 0 s"

definition serverInfo_of :: "env \<Rightarrow> string \<Rightarrow> serverInfo" where
  "serverInfo_of e modpackName =
     \<lparr>ip = replace_spaces (toLowerCase e modpackName) @ ''.pterodeploy.com'',
      port = 25565,
      players = ''0/20''\<rparr>"

section \<open>Deployment orchestrator: \<open>simulateDeployment\<close>\<close>

text \<open>\<open>Math.floor((Date.now() - startTime) / 1000)\<close>.\<close>

definition seconds_since :: "int \<Rightarrow> int \<Rightarrow> int" where
  "seconds_since startTime t = (t - startTime) div 1000"

text \<open>\<open>plan[i]?.estimatedDuration || 10\<close>: 10 when there is no such plan entry or it is 0.\<close>

definition estimatedDurationAt :: "string \<Rightarrow> nat \<Rightarrow> nat" where
  "estimatedDurationAt modpackUrl i =
     (let plan = createDeploymentPlan modpackUrl in
      if i < length plan \<and> estimatedDuration (plan ! i) \<noteq> 0
      then estimatedDuration (plan ! i) else 10)"

definition failureLogs :: "string list" where
  "failureLogs =
     [''Error: Failed to download modpack'',
      ''Connection timeout after 30 seconds'',
      ''Please check your internet connection and try again'']"

text \<open>The last line ends with U+2713, here in UTF-8.\<close>

definition successLogs :: "DeploymentStep \<Rightarrow> real \<Rightarrow> string list" where
  "successLogs step actualDuration =
     [''Successfully completed '' @ s_name step,
      ''Duration: '' @ toFixed1 actualDuration @ ''s'',
      ''All checks passed '' @ [CHR 0xE2, CHR 0x9C, CHR 0x93]]"

text \<open>Lines 153 to 167: the step is marked running and the transition is broadcast.\<close>

definition start_step :: "env \<Rightarrow> DeploymentWithSteps \<Rightarrow> string \<Rightarrow> DeploymentStep \<Rightarrow> world \<Rightarrow> outcome" where
  "start_step e d userId step w =
     (case deploymentStep_update (s_id step)
             (\<lambda>r. r\<lparr>s_status := RUNNING, s_startedAt := Some (now e w)\<rparr>) (tick w) of
        Inl x \<Rightarrow> Inl x
      | Inr w1 \<Rightarrow>
          Inr (emit (userRoom userId)
                 (step_update (d_id d) (s_id step) RUNNING (''Started: '' @ s_name step) None) w1))"

text \<open>
  Lines 177 to 217: the failing step. The step row and then the deployment row are
  written, then the two events are sent, and the function returns. The object literal
  of the deployment update reads the clock twice (\<open>completedAt\<close>, then \<open>duration\<close>), the
  \<open>deployment-complete\<close> payload once more.
\<close>

definition fail_step :: "env \<Rightarrow> DeploymentWithSteps \<Rightarrow> string \<Rightarrow> int \<Rightarrow> DeploymentStep \<Rightarrow> world \<Rightarrow> outcome" where
  "fail_step e d userId startTime step w =
     (case deploymentStep_update (s_id step)
             (\<lambda>r. r\<lparr>s_status := FAILED, s_completedAt := Some (now e w),
                     s_logs := Some failureLogs\<rparr>) (tick w) of
        Inl x \<Rightarrow> Inl x
      | Inr w1 \<Rightarrow>
          (case deployment_update (d_id d)
                  (\<lambda>r. r\<lparr>d_status := FAILED, d_completedAt := Some (now e w1),
                          d_duration := Some (seconds_since startTime (now e (tick w1))),
                          d_errorMsg := Some (''Deployment failed at step: '' @ s_name step)\<rparr>)
                  (tick (tick w1)) of
             Inl x \<Rightarrow> Inl x
           | Inr w2 \<Rightarrow>
               (let w3 = emit (userRoom userId)
                           (step_update (d_id d) (s_id step) FAILED (''Failed: '' @ s_name step)
                              (Some ''Connection timeout - please try again'')) w2
                in Inr (emit (userRoom userId)
                          (deployment_complete (d_id d) FAILED ''Deployment failed''
                             (seconds_since startTime (now e w3)) None) (tick w3)))))"

text \<open>Lines 219 to 238: the step is marked completed and the transition is broadcast.\<close>

definition complete_step :: "env \<Rightarrow> DeploymentWithSteps \<Rightarrow> string \<Rightarrow> DeploymentStep \<Rightarrow> real \<Rightarrow> world \<Rightarrow> outcome" where
  "complete_step e d userId step actualDuration w =
     (case deploymentStep_update (s_id step)
             (\<lambda>r. r\<lparr>s_status := COMPLETED, s_completedAt := Some (now e w),
                     s_logs := Some (successLogs step actualDuration)\<rparr>) (tick w) of
        Inl x \<Rightarrow> Inl x
      | Inr w1 \<Rightarrow>
          Inr (emit (userRoom userId)
                 (step_update (d_id d) (s_id step) COMPLETED (''Completed: '' @ s_name step) None) w1))"

text \<open>Lines 241 to 263: after the loop.\<close>

definition finish_deployment :: "env \<Rightarrow> DeploymentWithSteps \<Rightarrow> string \<Rightarrow> int \<Rightarrow> world \<Rightarrow> outcome" where
  "finish_deployment e d userId startTime w =
     (let totalDuration = seconds_since startTime (now e w) in
      case deployment_update (d_id d)
             (\<lambda>r. r\<lparr>d_status := COMPLETED, d_completedAt := Some (now e (tick w)),
                     d_duration := Some totalDuration\<rparr>) (tick (tick w)) of
        Inl x \<Rightarrow> Inl x
      | Inr w1 \<Rightarrow>
          Inr (emit (userRoom userId)
                 (deployment_complete (d_id d) COMPLETED ''Deployment completed successfully!''
                    totalDuration (Some (serverInfo_of e (d_modpackName d)))) w1))"

text \<open>
  Lines 169 to 171: \<open>estimatedDuration + Math.random() * 5\<close>, a product and a sum of
  doubles.
\<close>

definition actualDuration_of :: "env \<Rightarrow> DeploymentWithSteps \<Rightarrow> nat \<Rightarrow> world \<Rightarrow> real" where
  "actualDuration_of e d i w =
     to_double (real (estimatedDurationAt (d_modpackUrl d) i) + to_double (random e w * 5))"

text \<open>
  The \<open>for\<close> loop over \<open>deployment.steps\<close>, with the index \<open>i\<close> and the steps still to
  run. The timer of \<open>actualDuration * 1000\<close> milliseconds changes nothing but later
  readings of the clock, which the environment supplies. The failing branch returns
  from the whole function; leaving the loop normally runs the lines after it.
\<close>

fun steps_loop :: "env \<Rightarrow> DeploymentWithSteps \<Rightarrow> string \<Rightarrow> int \<Rightarrow> int \<Rightarrow> nat \<Rightarrow> DeploymentStep list \<Rightarrow> world \<Rightarrow> outcome" where
  "steps_loop e d userId startTime failAtStep i [] w = finish_deployment e d userId startTime w"
| "steps_loop e d userId startTime failAtStep i (step # rest) w =
     (case start_step e d userId step w of
        Inl x \<Rightarrow> Inl x
      | Inr w1 \<Rightarrow>
          (let actualDuration = actualDuration_of e d i w1;
               w2 = drawn w1
           in if int i = failAtStep then fail_step e d userId startTime step w2
              else (case complete_step e d userId step actualDuration w2 of
                      Inl x \<Rightarrow> Inl x
                    | Inr w3 \<Rightarrow> steps_loop e d userId startTime failAtStep (Suc i) rest w3)))"

text \<open>
  Lines 146 to 148. The literal \<open>0.2\<close> is the double nearest to one fifth, and the
  product with the number of steps is the product of doubles.
\<close>

definition shouldFail :: "env \<Rightarrow> world \<Rightarrow> bool" where
  "shouldFail e w = (random e w < to_double (2 / 10))"

definition failAtStep_of :: "env \<Rightarrow> DeploymentWithSteps \<Rightarrow> world \<Rightarrow> int" where
  "failAtStep_of e d w =
     (if shouldFail e w then \<lfloor>to_double (random e (drawn w) * real (length (steps d)))\<rfloor>
      else - 1)"

definition simulateDeployment :: "env \<Rightarrow> DeploymentWithSteps \<Rightarrow> string \<Rightarrow> world \<Rightarrow> outcome" where
  "simulateDeployment e d userId w =
     (let startTime = now e w in
      case deployment_update (d_id d) (\<lambda>r. r\<lparr>d_status := RUNNING\<rparr>) (tick w) of
        Inl x \<Rightarrow> Inl x
      | Inr w1 \<Rightarrow>
          (let w2 = emit (userRoom userId)
                      (deployment_status (d_id d) RUNNING ''Deployment started'') w1;
               failAtStep = failAtStep_of e d w2;
               w3 = (if shouldFail e w2 then drawn (drawn w2) else drawn w2)
           in steps_loop e d userId startTime failAtStep 0 (steps d) w3))"

section \<open>Session registry: the socket handlers\<close>

text \<open>
  The handler of \<open>start-deployment\<close> for a socket \<open>sid\<close> authenticated as \<open>userId\<close>,
  on a payload with the string \<open>deploymentId\<close>. Any throw is caught and answered on the
  socket.
\<close>

definition start_deployment :: "env \<Rightarrow> string \<Rightarrow> string \<Rightarrow> string \<Rightarrow> world \<Rightarrow> world" where
  "start_deployment e sid userId deploymentId w =
     (case findFirst_deployment deploymentId userId w of
        None \<Rightarrow> emit (Socket sid) (deployment_error ''Deployment not found'') w
      | Some deployment \<Rightarrow>
          (case simulateDeployment e deployment userId w of
             Inl (x, w') \<Rightarrow> emit (Socket sid) (deployment_error ''Failed to start deployment'') w'
           | Inr w' \<Rightarrow> w'))"

text \<open>
  The payload of an event is whatever the client sends. \<open>const { deploymentId } = data\<close>
  throws when \<open>data\<close> is \<open>undefined\<close> or \<open>null\<close> (\<open>NoData\<close>); of any other value it
  reads the property, which is missing or \<open>undefined\<close> (\<open>Absent\<close>), a string (\<open>Str\<close>),
  a filter object of Prisma such as \<open>{ not: ... }\<close> or \<open>{ startsWith: ... }\<close>, which
  selects identifiers (\<open>Filter\<close>), or a value that Prisma rejects as the \<open>id\<close> of a
  \<open>where\<close> (\<open>Invalid\<close>: \<open>null\<close>, a number, ...). Prisma leaves an \<open>undefined\<close> field
  out of the \<open>where\<close>, so an absent \<open>deploymentId\<close> selects every identifier.
\<close>

datatype field = Absent | Str string | Filter "string \<Rightarrow> bool" | Invalid

datatype payload = NoData | Data field

fun selects :: "field \<Rightarrow> string \<Rightarrow> bool" where
  "selects Absent i = True"
| "selects (Str j) i = (i = j)"
| "selects (Filter P) i = P i"
| "selects Invalid i = False"

text \<open>
  \<open>findFirst({ where: { id: deploymentId, userId }, include: steps by order })\<close> for a
  \<open>deploymentId\<close> that Prisma accepts: the first row of the user that it selects.
\<close>

definition findFirst_where :: "field \<Rightarrow> string \<Rightarrow> world \<Rightarrow> DeploymentWithSteps option" where
  "findFirst_where f u w =
     (case find (\<lambda>r. selects f (d_id r) \<and> d_userId r = u) (db_deployment w) of
        None \<Rightarrow> None
      | Some r \<Rightarrow> Some (with_steps r (stepsOf (d_id r) w)))"

text \<open>
  The handler of \<open>start-deployment\<close> on the payload as it arrives. With a string as
  \<open>deploymentId\<close> it is \<open>start_deployment\<close> above; the \<open>catch\<close> also answers the
  \<open>TypeError\<close> of the destructuring and the rejection of the query.
\<close>

definition start_found :: "env \<Rightarrow> string \<Rightarrow> string \<Rightarrow> DeploymentWithSteps option \<Rightarrow> world \<Rightarrow> world" where
  "start_found e sid userId found w =
     (case found of
        None \<Rightarrow> emit (Socket sid) (deployment_error ''Deployment not found'') w
      | Some deployment \<Rightarrow>
          (case simulateDeployment e deployment userId w of
             Inl (x, w') \<Rightarrow> emit (Socket sid) (deployment_error ''Failed to start deployment'') w'
           | Inr w' \<Rightarrow> w'))"

fun on_start_deployment :: "env \<Rightarrow> string \<Rightarrow> string \<Rightarrow> payload \<Rightarrow> world \<Rightarrow> world" where
  "on_start_deployment e sid userId NoData w =
     emit (Socket sid) (deployment_error ''Failed to start deployment'') w"
| "on_start_deployment e sid userId (Data Invalid) w =
     emit (Socket sid) (deployment_error ''Failed to start deployment'') w"
| "on_start_deployment e sid userId (Data (Str deploymentId)) w =
     start_deployment e sid userId deploymentId w"
| "on_start_deployment e sid userId (Data Absent) w =
     start_found e sid userId (findFirst_where Absent userId w) w"
| "on_start_deployment e sid userId (Data (Filter P)) w =
     start_found e sid userId (findFirst_where (Filter P) userId w) w"

text \<open>
  The events a connected socket can send: handlers are registered for \<open>start-deployment\<close>
  and \<open>disconnect\<close> (which only logs); any other event name has no handler.
\<close>

definition socket_on :: "env \<Rightarrow> string \<Rightarrow> string \<Rightarrow> string \<Rightarrow> payload \<Rightarrow> world \<Rightarrow> world" where
  "socket_on e sid userId eventName data w =
     (if eventName = ''start-deployment'' then on_start_deployment e sid userId data w
      else w)"

section \<open>Creating a deployment: \<open>POST /deployments\<close>\<close>

text \<open>
  \<open>url.match(/<p>([^\/]+)/)\<close> for a literal \<open>p\<close>: the leftmost place where \<open>p\<close> is
  followed by a character other than a slash; the group is the run of such characters.
\<close>

fun match_after :: "string \<Rightarrow> string \<Rightarrow> string option" where
  "match_after p [] = None"
| "match_after p (c # cs) =
     (let rest = drop (length p) (c # cs) in
      if startsWith (c # cs) p \<and> rest \<noteq> [] \<and> hd rest \<noteq> CHR ''/''
      then Some (takeWhile (\<lambda>x. x \<noteq> CHR ''/'') rest)
      else match_after p cs)"

text \<open>
  \<open>url.match(/\/([^\/]+)\/?$/)\<close>: the last segment after a slash, not empty, with one
  closing slash allowed behind it.
\<close>

definition match_last_segment :: "string \<Rightarrow> string option" where
  "match_last_segment url =
     (let s = (if url \<noteq> [] \<and> last url = CHR ''/'' then butlast url else url);
          seg = rev (takeWhile (\<lambda>x. x \<noteq> CHR ''/'') (rev s))
      in if seg \<noteq> [] \<and> length seg < length s then Some seg else None)"

definition replace_chars :: "char list \<Rightarrow> string \<Rightarrow> string" where
  "replace_chars cs s = map (\<lambda>c. if c \<in> set cs then CHR '' '' else c) s"

definition extractModpackName :: "string \<Rightarrow> string" where
  "extractModpackName url =
     (if includes_str url ''curseforge.com''
      then (case match_after ''/projects/'' url of
              Some g \<Rightarrow> replace_chars ''-'' g | None \<Rightarrow> ''Unknown Modpack'')
      else if includes_str url ''modrinth.com''
      then (case match_after ''/project/'' url of
              Some g \<Rightarrow> replace_chars ''-'' g | None \<Rightarrow> ''Unknown Modpack'')
      else (case match_last_segment url of
              Some g \<Rightarrow> replace_chars ''-_'' g | None \<Rightarrow> ''Unknown Modpack''))"

text \<open>A JavaScript value that is \<open>undefined\<close> or the empty string is falsy.\<close>

definition falsy :: "string option \<Rightarrow> bool" where
  "falsy v = (v = None \<or> v = Some [])"

datatype response =
    Created "DeploymentWithSteps option"
  | Ok_message string
  | BadRequest string
  | NotFound string
  | InternalServerError string

text \<open>
  The steps are created from the plan with \<open>order: index\<close>. \<open>Promise.all\<close> starts the
  creations in index order; the model runs them one after the other and stops at the
  first one that is rejected.
\<close>

fun create_steps :: "env \<Rightarrow> string \<Rightarrow> nat \<Rightarrow> DeploymentPlan list \<Rightarrow> world \<Rightarrow> outcome" where
  "create_steps e deploymentId index [] w = Inr w"
| "create_steps e deploymentId index (step # rest) w =
     (case deploymentStep_create
             \<lparr>s_id = cuid e (ids_made w), s_deploymentId = deploymentId, s_name = name step,
              s_description = description step, s_status = PENDING, s_startedAt = None,
              s_completedAt = None, s_logs = None, s_order = int index\<rparr>
             (w\<lparr>ids_made := Suc (ids_made w)\<rparr>) of
        Inl x \<Rightarrow> Inl x
      | Inr w1 \<Rightarrow> create_steps e deploymentId (Suc index) rest w1)"

definition post_deployments :: "env \<Rightarrow> string \<Rightarrow> string option \<Rightarrow> string option \<Rightarrow> world \<Rightarrow> response \<times> world" where
  "post_deployments e userId modpackUrl modpackName w =
     (if falsy modpackUrl then (BadRequest ''Modpack URL is required'', w)
      else
        (let url = the modpackUrl;
             extractedName = (if falsy modpackName then extractModpackName url else the modpackName);
             deployment =
               \<lparr>d_id = cuid e (ids_made w), d_userId = userId, d_modpackName = extractedName,
                d_modpackUrl = url, d_status = PENDING, d_startedAt = now e w,
                d_completedAt = None, d_duration = None, d_logs = None, d_errorMsg = None\<rparr>
         in case deployment_create deployment (tick (w\<lparr>ids_made := Suc (ids_made w)\<rparr>)) of
              Inl (x, w1) \<Rightarrow> (InternalServerError ''Internal server error'', w1)
            | Inr w1 \<Rightarrow>
                (case create_steps e (d_id deployment) 0 (createDeploymentPlan url) w1 of
                   Inl (x, w2) \<Rightarrow> (InternalServerError ''Internal server error'', w2)
                 | Inr w2 \<Rightarrow> (Created (findUnique_deployment (d_id deployment) w2), w2))))"

section \<open>Deleting a deployment: \<open>DELETE /deployments/:id\<close>\<close>

text \<open>
  The row is looked up by identifier and owner. The foreign key of \<open>DeploymentStep\<close> is
  declared \<open>ON DELETE RESTRICT\<close>, so \<open>prisma.deployment.delete\<close> throws while a step
  still refers to the deployment, and the route answers 500.
\<close>

definition delete_deployment :: "string \<Rightarrow> string \<Rightarrow> world \<Rightarrow> response \<times> world" where
  "delete_deployment userId i w =
     (case find (\<lambda>r. d_id r = i \<and> d_userId r = userId) (db_deployment w) of
        None \<Rightarrow> (NotFound ''Deployment not found'', w)
      | Some r \<Rightarrow>
          (if list_ex (\<lambda>s. s_deploymentId s = i) (db_deploymentStep w)
           then (InternalServerError ''Internal server error'', w)
           else (Ok_message ''Deployment deleted successfully'',
                 w\<lparr>db_deployment := filter (\<lambda>r. d_id r \<noteq> i) (db_deployment w)\<rparr>)))"

section \<open>Observations on a world\<close>

text \<open>The row with a given primary key, if any.\<close>

definition stepRow :: "world \<Rightarrow> string \<Rightarrow> DeploymentStep option" where
  "stepRow w i = find (\<lambda>r. s_id r = i) (db_deploymentStep w)"

definition deploymentRow :: "world \<Rightarrow> string \<Rightarrow> Deployment option" where
  "deploymentRow w i = find (\<lambda>r. d_id r = i) (db_deployment w)"

text \<open>The \<open>step-update\<close> events of a trace as (stepId, status), and the statuses of its
  \<open>deployment-complete\<close> events, both in emission order.\<close>

definition stepUpdateOf :: "channel \<times> event \<Rightarrow> (string \<times> status) list" where
  "stepUpdateOf ce = (case snd ce of step_update d s st m x \<Rightarrow> [(s, st)] | _ \<Rightarrow> [])"

definition step_updates :: "(channel \<times> event) list \<Rightarrow> (string \<times> status) list" where
  "step_updates evs = concat (map stepUpdateOf evs)"

definition completeOf :: "channel \<times> event \<Rightarrow> status list" where
  "completeOf ce = (case snd ce of deployment_complete d st m n i \<Rightarrow> [st] | _ \<Rightarrow> [])"

definition completions :: "(channel \<times> event) list \<Rightarrow> status list" where
  "completions evs = concat (map completeOf evs)"

text \<open>The messages of the \<open>deployment-error\<close> events of a trace.\<close>

definition errorOf :: "channel \<times> event \<Rightarrow> string list" where
  "errorOf ce = (case snd ce of deployment_error m \<Rightarrow> [m] | _ \<Rightarrow> [])"

definition errors :: "(channel \<times> event) list \<Rightarrow> string list" where
  "errors evs = concat (map errorOf evs)"

text \<open>The rows a run writes exist: the deployment's, and one for each of its steps. The
  row of a user exists.\<close>

definition deploymentPresent :: "string \<Rightarrow> world \<Rightarrow> bool" where
  "deploymentPresent i w = list_ex (\<lambda>r. d_id r = i) (db_deployment w)"

definition userPresent :: "string \<Rightarrow> world \<Rightarrow> bool" where
  "userPresent u w = list_ex (\<lambda>r. u_id r = u) (db_user w)"

definition stepsPresent :: "DeploymentStep list \<Rightarrow> world \<Rightarrow> bool" where
  "stepsPresent ss w = list_all (\<lambda>s. list_ex (\<lambda>r. s_id r = s_id s) (db_deploymentStep w)) ss"

text \<open>The world a call leaves behind, whether it returned or threw.\<close>

definition world_of :: "outcome \<Rightarrow> world" where
  "world_of r = (case r of Inl (x, w) \<Rightarrow> w | Inr w \<Rightarrow> w)"

text \<open>
  The \<open>step-update\<close> events of a run over the steps \<open>ss\<close> in which the step at position
  \<open>fa\<close> fails (none does when \<open>fa\<close> is no position of \<open>ss\<close>): each step before it is
  announced running and then completed, the failing one running and then failed.
\<close>

definition ranToCompletion :: "DeploymentStep list \<Rightarrow> (string \<times> status) list" where
  "ranToCompletion ss = concat (map (\<lambda>s. [(s_id s, RUNNING), (s_id s, COMPLETED)]) ss)"

definition expectedUpdates :: "int \<Rightarrow> DeploymentStep list \<Rightarrow> (string \<times> status) list" where
  "expectedUpdates fa ss =
     (if 0 \<le> fa \<and> fa < int (length ss)
      then ranToCompletion (take (nat fa) ss) @
           [(s_id (ss ! nat fa), RUNNING), (s_id (ss ! nat fa), FAILED)]
      else ranToCompletion ss)"

text \<open>The order index of the step of \<open>deployment.steps\<close> with a given identifier.\<close>

definition orderIndex :: "DeploymentWithSteps \<Rightarrow> string \<Rightarrow> int" where
  "orderIndex d i = (case find (\<lambda>s. s_id s = i) (steps d) of Some s \<Rightarrow> s_order s | None \<Rightarrow> - 1)"


text \<open>
  The world in which the loop of \<open>simulateDeployment\<close> starts, when the deployment row
  exists: the clock has been read once, the row is marked running, the
  \<open>deployment-status\<close> event is out, and one or two random numbers have been drawn.
\<close>

definition started :: "env \<Rightarrow> DeploymentWithSteps \<Rightarrow> string \<Rightarrow> world \<Rightarrow> world" where
  "started e d u w =
     (let w2 = emit (userRoom u) (deployment_status (d_id d) RUNNING ''Deployment started'')
                 ((tick w)\<lparr>db_deployment :=
                    map (\<lambda>r. if d_id r = d_id d then r\<lparr>d_status := RUNNING\<rparr> else r)
                      (db_deployment (tick w))\<rparr>)
      in if shouldFail e w then drawn (drawn w2) else drawn w2)"

text \<open>The status an event carries, and worlds in which nothing is \<open>CANCELLED\<close>.\<close>

definition eventStatus :: "event \<Rightarrow> status option" where
  "eventStatus ev =
     (case ev of
        deployment_status d st m \<Rightarrow> Some st
      | step_update d s st m x \<Rightarrow> Some st
      | deployment_complete d st m n i \<Rightarrow> Some st
      | deployment_error m \<Rightarrow> None)"

definition noCancelled :: "world \<Rightarrow> bool" where
  "noCancelled w =
     (list_all (\<lambda>r. d_status r \<noteq> CANCELLED) (db_deployment w) \<and>
      list_all (\<lambda>r. s_status r \<noteq> CANCELLED) (db_deploymentStep w) \<and>
      list_all (\<lambda>ce. eventStatus (snd ce) \<noteq> Some CANCELLED) (emitted w))"

text \<open>
  The signals that reach the orchestration engine from outside: an event on an
  authenticated socket (socket, user, event name, payload) and the requests
  of the deployments router, each with the authenticated user: the creation (with
  \<open>modpackUrl\<close> and \<open>modpackName\<close>), the deletion of one deployment, and the two reads,
  which leave the world as it is.
\<close>

datatype signal =
    SocketEvent string string string payload
  | PostDeployments string "string option" "string option"
  | DeleteDeployment string string
  | GetDeployments string
  | GetDeployment string string

fun handle :: "env \<Rightarrow> signal \<Rightarrow> world \<Rightarrow> world" where
  "handle e (SocketEvent sid userId eventName data) w =
     socket_on e sid userId eventName data w"
| "handle e (PostDeployments userId modpackUrl modpackName) w =
     snd (post_deployments e userId modpackUrl modpackName w)"
| "handle e (DeleteDeployment userId deploymentId) w =
     snd (delete_deployment userId deploymentId w)"
| "handle e (GetDeployments userId) w = w"
| "handle e (GetDeployment userId deploymentId) w = w"

text \<open>The step rows \<open>POST /deployments\<close> inserts for a plan, from order index \<open>i\<close> and
  the \<open>n\<close>-th generated identifier on.\<close>

fun step_rows :: "env \<Rightarrow> string \<Rightarrow> nat \<Rightarrow> nat \<Rightarrow> DeploymentPlan list \<Rightarrow> DeploymentStep list" where
  "step_rows e deploymentId i n [] = []"
| "step_rows e deploymentId i n (step # rest) =
     \<lparr>s_id = cuid e n, s_deploymentId = deploymentId, s_name = name step,
      s_description = description step, s_status = PENDING, s_startedAt = None,
      s_completedAt = None, s_logs = None, s_order = int i\<rparr>
     # step_rows e deploymentId (Suc i) (Suc n) rest"

text \<open>
  What creating a deployment with \<open>n\<close> steps needs of the identifier generator and the
  store: the next identifier is no deployment's and no step refers to it, and the \<open>n\<close>
  identifiers after it are new and distinct step identifiers.
\<close>

definition freshIds :: "env \<Rightarrow> world \<Rightarrow> nat \<Rightarrow> bool" where
  "freshIds e w n =
     (cuid e (ids_made w) \<notin> set (map d_id (db_deployment w)) \<and>
      cuid e (ids_made w) \<notin> set (map s_deploymentId (db_deploymentStep w)) \<and>
      distinct (map s_id (db_deploymentStep w) @
                map (cuid e) [Suc (ids_made w) ..< Suc (ids_made w) + n]))"

section \<open>Runs of the start handler, from \<open>await\<close> to \<open>await\<close>\<close>

text \<open>
  The handler is an \<open>async\<close> function: at every \<open>await\<close> it hands control back, and
  the handlers of other events run before it is resumed. A run is a sequence of segments,
  each without interruption: when the run is resumed, the operation it waited for takes
  effect, and the code behind it runs up to the next \<open>await\<close>, whose operation is
  issued with its arguments evaluated. \<open>pending\<close> is what a suspended run waits for,
  with the local variables its continuation reads:

    \<^item> \<open>FindFirst deploymentId\<close>: the query of the handler;
    \<^item> \<open>MarkRunning deployment startTime\<close>: the update that marks the deployment running;
    \<^item> \<open>MarkStepRunning deployment startTime failAtStep i startedAt\<close>: in the loop at
      index \<open>i\<close>, the update that marks the step running;
    \<^item> \<open>Timer deployment startTime failAtStep i actualDuration\<close>: the timer of the step;
    \<^item> \<open>MarkStepFailed deployment startTime i completedAt\<close> and
      \<open>MarkFailed deployment startTime i completedAt duration\<close>: the two updates of the
      failing branch;
    \<^item> \<open>MarkStepCompleted deployment startTime failAtStep i completedAt actualDuration\<close>:
      the update that marks the step completed;
    \<^item> \<open>MarkCompleted deployment totalDuration completedAt\<close>: the update behind the loop;
    \<^item> \<open>Done\<close>: the handler has returned.
\<close>

datatype pending =
    FindFirst field
  | MarkRunning DeploymentWithSteps int
  | MarkStepRunning DeploymentWithSteps int int nat int
  | Timer DeploymentWithSteps int int nat real
  | MarkStepFailed DeploymentWithSteps int nat int
  | MarkFailed DeploymentWithSteps int nat int int
  | MarkStepCompleted DeploymentWithSteps int int nat int real
  | MarkCompleted DeploymentWithSteps int int
  | Done

text \<open>A rejected \<open>await\<close> throws into the \<open>catch\<close> of the handler, which answers and returns.\<close>

definition failed :: "string \<Rightarrow> world \<Rightarrow> pending \<times> world" where
  "failed sid w = (Done, emit (Socket sid) (deployment_error ''Failed to start deployment'') w)"

text \<open>
  The head of the loop at index \<open>i\<close>: the update of the next step is issued with
  \<open>startedAt: new Date()\<close>, or, behind the last step, the update of the deployment with
  \<open>totalDuration\<close> and \<open>completedAt: new Date()\<close>.
\<close>

definition loop_head :: "env \<Rightarrow> DeploymentWithSteps \<Rightarrow> int \<Rightarrow> int \<Rightarrow> nat \<Rightarrow> world \<Rightarrow> pending \<times> world" where
  "loop_head e d startTime failAtStep i w =
     (if i < length (steps d) then (MarkStepRunning d startTime failAtStep i (now e w), tick w)
      else (MarkCompleted d (seconds_since startTime (now e w)) (now e (tick w)), tick (tick w)))"

text \<open>One segment of the run on the socket \<open>sid\<close> of the user \<open>userId\<close>.\<close>

fun resume :: "env \<Rightarrow> string \<Rightarrow> string \<Rightarrow> pending \<Rightarrow> world \<Rightarrow> pending \<times> world" where
  "resume e sid userId (FindFirst f) w =
     (if f = Invalid then failed sid w
      else (case findFirst_where f userId w of
              None \<Rightarrow> (Done, emit (Socket sid) (deployment_error ''Deployment not found'') w)
            | Some deployment \<Rightarrow> (MarkRunning deployment (now e w), tick w)))"
| "resume e sid userId (MarkRunning d startTime) w =
     (case deployment_update (d_id d) (\<lambda>r. r\<lparr>d_status := RUNNING\<rparr>) w of
        Inl (x, w') \<Rightarrow> failed sid w'
      | Inr w1 \<Rightarrow>
          (let w2 = emit (userRoom userId)
                      (deployment_status (d_id d) RUNNING ''Deployment started'') w1;
               failAtStep = failAtStep_of e d w2;
               w3 = (if shouldFail e w2 then drawn (drawn w2) else drawn w2)
           in loop_head e d startTime failAtStep 0 w3))"
| "resume e sid userId (MarkStepRunning d startTime failAtStep i startedAt) w =
     (let step = steps d ! i in
      case deploymentStep_update (s_id step)
             (\<lambda>r. r\<lparr>s_status := RUNNING, s_startedAt := Some startedAt\<rparr>) w of
        Inl (x, w') \<Rightarrow> failed sid w'
      | Inr w1 \<Rightarrow>
          (let w2 = emit (userRoom userId)
                      (step_update (d_id d) (s_id step) RUNNING (''Started: '' @ s_name step) None) w1
           in (Timer d startTime failAtStep i (actualDuration_of e d i w2), drawn w2)))"
| "resume e sid userId (Timer d startTime failAtStep i actualDuration) w =
     (if int i = failAtStep then (MarkStepFailed d startTime i (now e w), tick w)
      else (MarkStepCompleted d startTime failAtStep i (now e w) actualDuration, tick w))"
| "resume e sid userId (MarkStepFailed d startTime i completedAt) w =
     (let step = steps d ! i in
      case deploymentStep_update (s_id step)
             (\<lambda>r. r\<lparr>s_status := FAILED, s_completedAt := Some completedAt,
                     s_logs := Some failureLogs\<rparr>) w of
        Inl (x, w') \<Rightarrow> failed sid w'
      | Inr w1 \<Rightarrow>
          (MarkFailed d startTime i (now e w1) (seconds_since startTime (now e (tick w1))),
           tick (tick w1)))"
| "resume e sid userId (MarkFailed d startTime i completedAt duration) w =
     (let step = steps d ! i in
      case deployment_update (d_id d)
             (\<lambda>r. r\<lparr>d_status := FAILED, d_completedAt := Some completedAt,
                     d_duration := Some duration,
                     d_errorMsg := Some (''Deployment failed at step: '' @ s_name step)\<rparr>) w of
        Inl (x, w') \<Rightarrow> failed sid w'
      | Inr w1 \<Rightarrow>
          (let w2 = emit (userRoom userId)
                      (step_update (d_id d) (s_id step) FAILED (''Failed: '' @ s_name step)
                         (Some ''Connection timeout - please try again'')) w1
           in (Done, emit (userRoom userId)
                       (deployment_complete (d_id d) FAILED ''Deployment failed''
                          (seconds_since startTime (now e w2)) None) (tick w2))))"
| "resume e sid userId (MarkStepCompleted d startTime failAtStep i completedAt actualDuration) w =
     (let step = steps d ! i in
      case deploymentStep_update (s_id step)
             (\<lambda>r. r\<lparr>s_status := COMPLETED, s_completedAt := Some completedAt,
                     s_logs := Some (successLogs step actualDuration)\<rparr>) w of
        Inl (x, w') \<Rightarrow> failed sid w'
      | Inr w1 \<Rightarrow>
          loop_head e d startTime failAtStep (Suc i)
            (emit (userRoom userId)
               (step_update (d_id d) (s_id step) COMPLETED (''Completed: '' @ s_name step) None) w1))"
| "resume e sid userId (MarkCompleted d totalDuration completedAt) w =
     (case deployment_update (d_id d)
             (\<lambda>r. r\<lparr>d_status := COMPLETED, d_completedAt := Some completedAt,
                     d_duration := Some totalDuration\<rparr>) w of
        Inl (x, w') \<Rightarrow> failed sid w'
      | Inr w1 \<Rightarrow>
          (Done, emit (userRoom userId)
                   (deployment_complete (d_id d) COMPLETED ''Deployment completed successfully!''
                      totalDuration (Some (serverInfo_of e (d_modpackName d)))) w1))"
| "resume e sid userId Done w = (Done, w)"

text \<open>
  The arrival of a \<open>start-deployment\<close> event runs the handler up to its first \<open>await\<close>:
  the payload is taken apart, which throws when there is none, and the query is issued.
\<close>

definition arrive :: "string \<Rightarrow> payload \<Rightarrow> world \<Rightarrow> pending \<times> world" where
  "arrive sid data w = (case data of NoData \<Rightarrow> failed sid w | Data f \<Rightarrow> (FindFirst f, w))"

text \<open>
  A run among others. Between two segments of the run anything else may happen: other
  runs, of the same deployment as well, and requests advance, events are sent, the clock
  and the random source are read. \<open>Interfere w\<close> stands for all of this: the run finds
  the world \<open>w\<close> when it is resumed. \<open>run\<close> follows one run through a sequence of
  moves and collects the events that the run itself has sent.
\<close>

datatype move = Resume | Interfere world

fun run :: "env \<Rightarrow> string \<Rightarrow> string \<Rightarrow> move list \<Rightarrow> pending \<Rightarrow> world \<Rightarrow> (channel \<times> event) list \<Rightarrow>
    pending \<times> world \<times> (channel \<times> event) list" where
  "run e sid userId [] p w sent = (p, w, sent)"
| "run e sid userId (Resume # ms) p w sent =
     (case resume e sid userId p w of
        (p', w') \<Rightarrow> run e sid userId ms p' w' (sent @ drop (length (emitted w)) (emitted w')))"
| "run e sid userId (Interfere w' # ms) p w sent = run e sid userId ms p w' sent"

fun resumes :: "move list \<Rightarrow> nat" where
  "resumes [] = 0"
| "resumes (Resume # ms) = Suc (resumes ms)"
| "resumes (Interfere w # ms) = resumes ms"

fun interferences :: "move list \<Rightarrow> world list" where
  "interferences [] = []"
| "interferences (Resume # ms) = interferences ms"
| "interferences (Interfere w # ms) = w # interferences ms"

text \<open>
  What a run needs of the others: the rows it was given stay in the store, the
  deployment's and, for each step, one with the step's identifier that refers to the
  deployment.
\<close>

definition rowsPresent :: "DeploymentWithSteps \<Rightarrow> world \<Rightarrow> bool" where
  "rowsPresent d w =
     (deploymentPresent (d_id d) w \<and>
      list_all (\<lambda>s. list_ex (\<lambda>r. s_id r = s_id s \<and> s_deploymentId r = d_id d) (db_deploymentStep w))
        (steps d))"

text \<open>
  The primary keys of the two tables, with the deployment a step refers to: what no
  update changes. And what a creation leaves: every row that was there.
\<close>

definition keys :: "world \<Rightarrow> string list \<times> (string \<times> string) list" where
  "keys w =
     (map d_id (db_deployment w), map (\<lambda>s. (s_id s, s_deploymentId s)) (db_deploymentStep w))"

definition keeps :: "world \<Rightarrow> world \<Rightarrow> bool" where
  "keeps w w' =
     (set (db_deployment w) \<subseteq> set (db_deployment w') \<and>
      set (db_deploymentStep w) \<subseteq> set (db_deploymentStep w'))"

text \<open>
  The whole system: the runs that have been started, each with its socket and user, and
  the store. A \<open>start-deployment\<close> event starts a run, a request of the router is served,
  or the run at position \<open>k\<close> is resumed. A request is served in one piece; each of its
  operations taken alone leaves the store as the lemmas on the system need it.
\<close>

datatype action = Deliver signal | Continue nat

fun act :: "env \<Rightarrow> action \<Rightarrow> (string \<times> string \<times> pending) list \<times> world \<Rightarrow>
    (string \<times> string \<times> pending) list \<times> world" where
  "act e (Deliver (SocketEvent sid userId eventName data)) (ts, w) =
     (if eventName = ''start-deployment''
      then (case arrive sid data w of (p, w') \<Rightarrow> (ts @ [(sid, userId, p)], w'))
      else (ts, w))"
| "act e (Deliver (PostDeployments userId modpackUrl modpackName)) (ts, w) =
     (ts, handle e (PostDeployments userId modpackUrl modpackName) w)"
| "act e (Deliver (DeleteDeployment userId deploymentId)) (ts, w) =
     (ts, handle e (DeleteDeployment userId deploymentId) w)"
| "act e (Deliver (GetDeployments userId)) (ts, w) = (ts, w)"
| "act e (Deliver (GetDeployment userId deploymentId)) (ts, w) = (ts, w)"
| "act e (Continue k) (ts, w) =
     (if k < length ts
      then (case ts ! k of
              (sid, userId, p) \<Rightarrow>
                (case resume e sid userId p w of (p', w') \<Rightarrow> (ts[k := (sid, userId, p')], w')))
      else (ts, w))"

text \<open>
  The system as the run at position \<open>k\<close> lives it: its own segments, and between them
  the worlds the other actions leave. \<open>sent_by\<close> collects the events that the segments
  of this run send, \<open>continues\<close> counts them.
\<close>

fun view :: "env \<Rightarrow> nat \<Rightarrow> action list \<Rightarrow> (string \<times> string \<times> pending) list \<times> world \<Rightarrow> move list" where
  "view e k [] c = []"
| "view e k (Continue j # as) c =
     (if j = k then Resume else Interfere (snd (act e (Continue j) c))) #
     view e k as (act e (Continue j) c)"
| "view e k (Deliver sig # as) c =
     Interfere (snd (act e (Deliver sig) c)) # view e k as (act e (Deliver sig) c)"

fun sent_by :: "env \<Rightarrow> nat \<Rightarrow> action list \<Rightarrow> (string \<times> string \<times> pending) list \<times> world \<Rightarrow>
    (channel \<times> event) list" where
  "sent_by e k [] c = []"
| "sent_by e k (Continue j # as) c =
     (if j = k then drop (length (emitted (snd c))) (emitted (snd (act e (Continue j) c))) else []) @
     sent_by e k as (act e (Continue j) c)"
| "sent_by e k (Deliver sig # as) c = sent_by e k as (act e (Deliver sig) c)"

fun continues :: "nat \<Rightarrow> action list \<Rightarrow> nat" where
  "continues k [] = 0"
| "continues k (Continue j # as) = (if j = k then Suc (continues k as) else continues k as)"
| "continues k (Deliver sig # as) = continues k as"

text \<open>
  The steps a suspended run is still to make, at most; and what the run has sent so far
  at each point: first the \<open>deployment-status\<close> event, then for the steps before the
  index their two events, for the step at the index its \<open>RUNNING\<close> event once the step
  is marked running, and at the end one \<open>deployment-complete\<close> event.
\<close>

fun todo :: "pending \<Rightarrow> nat" where
  "todo (FindFirst f) = 0"
| "todo (MarkRunning d startTime) = 3 * length (steps d) + 2"
| "todo (MarkStepRunning d startTime failAtStep i startedAt) = 3 * (length (steps d) - i) + 1"
| "todo (Timer d startTime failAtStep i actualDuration) = 3 * (length (steps d) - i)"
| "todo (MarkStepFailed d startTime i completedAt) = 2"
| "todo (MarkFailed d startTime i completedAt duration) = 1"
| "todo (MarkStepCompleted d startTime failAtStep i completedAt actualDuration) =
     3 * (length (steps d) - i) - 1"
| "todo (MarkCompleted d totalDuration completedAt) = 1"
| "todo Done = 0"

definition begun :: "string \<Rightarrow> DeploymentWithSteps \<Rightarrow> (channel \<times> event) list \<Rightarrow> bool" where
  "begun u d sent =
     (take 1 sent = [(userRoom u, deployment_status (d_id d) RUNNING ''Deployment started'')] \<and>
      errors sent = [] \<and> list_all (\<lambda>ce. fst ce = userRoom u) sent)"

fun sent_so_far :: "string \<Rightarrow> DeploymentWithSteps \<Rightarrow> pending \<Rightarrow> (channel \<times> event) list \<Rightarrow> bool" where
  "sent_so_far u d (FindFirst f) sent = False"
| "sent_so_far u d (MarkRunning d' startTime) sent = (d' = d \<and> sent = [])"
| "sent_so_far u d (MarkStepRunning d' startTime failAtStep i startedAt) sent =
     (d' = d \<and> i < length (steps d) \<and> begun u d sent \<and> completions sent = [] \<and>
      step_updates sent = ranToCompletion (take i (steps d)))"
| "sent_so_far u d (Timer d' startTime failAtStep i actualDuration) sent =
     (d' = d \<and> i < length (steps d) \<and> begun u d sent \<and> completions sent = [] \<and>
      step_updates sent = ranToCompletion (take i (steps d)) @ [(s_id (steps d ! i), RUNNING)])"
| "sent_so_far u d (MarkStepFailed d' startTime i completedAt) sent =
     (d' = d \<and> i < length (steps d) \<and> begun u d sent \<and> completions sent = [] \<and>
      step_updates sent = ranToCompletion (take i (steps d)) @ [(s_id (steps d ! i), RUNNING)])"
| "sent_so_far u d (MarkFailed d' startTime i completedAt duration) sent =
     (d' = d \<and> i < length (steps d) \<and> begun u d sent \<and> completions sent = [] \<and>
      step_updates sent = ranToCompletion (take i (steps d)) @ [(s_id (steps d ! i), RUNNING)])"
| "sent_so_far u d (MarkStepCompleted d' startTime failAtStep i completedAt actualDuration) sent =
     (d' = d \<and> i < length (steps d) \<and> begun u d sent \<and> completions sent = [] \<and>
      step_updates sent = ranToCompletion (take i (steps d)) @ [(s_id (steps d ! i), RUNNING)])"
| "sent_so_far u d (MarkCompleted d' totalDuration completedAt) sent =
     (d' = d \<and> begun u d sent \<and> completions sent = [] \<and>
      step_updates sent = ranToCompletion (steps d))"
| "sent_so_far u d Done sent =
     (begun u d sent \<and> length (completions sent) = 1 \<and>
      (\<exists>fa. step_updates sent = expectedUpdates fa (steps d)))"

section \<open>Example worlds\<close>

text \<open>A store with the users \<open>u1\<close> and \<open>u2\<close>, one deployment of \<open>u1\<close> and its first
  three steps, all pending.\<close>

definition user_ex :: "string \<Rightarrow> User" where
  "user_ex i =
     \<lparr>u_id = i, u_username = i, u_password = ''x'', u_email = None, u_role = ''user'',
      u_status = ''approved'', u_createdAt = 0, u_updatedAt = 0\<rparr>"

definition step_ex :: "string \<Rightarrow> string \<Rightarrow> int \<Rightarrow> status \<Rightarrow> DeploymentStep" where
  "step_ex i n k st =
     \<lparr>s_id = i, s_deploymentId = ''d1'', s_name = n, s_description = [], s_status = st,
      s_startedAt = None, s_completedAt = None, s_logs = None, s_order = k\<rparr>"

definition steps_ex :: "status \<Rightarrow> DeploymentStep list" where
  "steps_ex st =
     [step_ex ''s0'' ''Validate URL'' 0 st, step_ex ''s1'' ''Download Modpack'' 1 st,
      step_ex ''s2'' ''Extract Files'' 2 st]"

definition row_ex :: "status \<Rightarrow> Deployment" where
  "row_ex st =
     \<lparr>d_id = ''d1'', d_userId = ''u1'', d_modpackName = ''small.zip'',
      d_modpackUrl = ''https://example.com/packs/small.zip'', d_status = st, d_startedAt = 0,
      d_completedAt = None, d_duration = None, d_logs = None, d_errorMsg = None\<rparr>"

definition world_ex :: "status \<Rightarrow> world" where
  "world_ex st =
     \<lparr>db_user = [user_ex ''u1'', user_ex ''u2''], db_deployment = [row_ex st],
      db_deploymentStep = steps_ex st, emitted = [],
      clock_reads = 0, random_draws = 0, ids_made = 0\<rparr>"

definition deployment_ex :: "status \<Rightarrow> DeploymentWithSteps" where
  "deployment_ex st = with_steps (row_ex st) (steps_ex st)"

text \<open>A store with the user \<open>u1\<close> and no deployment.\<close>

definition world_empty :: world where
  "world_empty =
     \<lparr>db_user = [user_ex ''u1''], db_deployment = [], db_deploymentStep = [], emitted = [],
      clock_reads = 0, random_draws = 0, ids_made = 0\<rparr>"

text \<open>
  Environments. In \<open>env_fail\<close> the first draw is below 0.2 and the second picks position 1
  of three steps; in \<open>env_ok\<close> no failure is drawn. In \<open>env_round\<close> the second draw is
  the double just below two thirds; \<open>env_late\<close> agrees with it on the first two draws
  and has another clock and every later draw below 0.2. \<open>env_clock\<close> gives the clock
  readings of a run of the
  three steps that takes 5 ms to reach its first step.
\<close>

definition env_fail :: env where
  "env_fail =
     \<lparr>clk = (\<lambda>n. 1000 * int n), rnd = (\<lambda>n. if n = 0 then 1 / 10 else 1 / 2),
      cuid = (\<lambda>n. ''c'' @ show_nat n), toLowerCase = map toLowerCase_char\<rparr>"

definition env_ok :: env where
  "env_ok =
     \<lparr>clk = (\<lambda>n. 1000 * int n), rnd = (\<lambda>n. 1 / 2), cuid = (\<lambda>n. ''c'' @ show_nat n),
      toLowerCase = map toLowerCase_char\<rparr>"

definition env_round :: env where
  "env_round =
     \<lparr>clk = (\<lambda>n. 1000 * int n),
      rnd = (\<lambda>n. if n = 0 then 1 / 10 else if n = 1 then 6004799503160661 / 2 ^ 53 else 1 / 2),
      cuid = (\<lambda>n. ''c'' @ show_nat n), toLowerCase = map toLowerCase_char\<rparr>"

definition env_late :: env where
  "env_late =
     \<lparr>clk = (\<lambda>n. 7 * int n),
      rnd = (\<lambda>n. if n = 0 then 1 / 10 else if n = 1 then 6004799503160661 / 2 ^ 53 else 1 / 20),
      cuid = (\<lambda>n. ''c'' @ show_nat n), toLowerCase = map toLowerCase_char\<rparr>"

definition env_clock :: env where
  "env_clock =
     \<lparr>clk = (\<lambda>n. if n < 9 then [0, 5, 5510, 5515, 28020, 28025, 40995, 41002, 41002] ! n
                  else 41002),
      rnd = (\<lambda>n. 1 / 2), cuid = (\<lambda>n. ''c'' @ show_nat n),
      toLowerCase = map toLowerCase_char\<rparr>"

text \<open>
  A schedule of the system for two runs of the deployment \<open>d1\<close>. The run at position 0
  has had its query answered; it goes on for five segments, up to the timer of the step
  \<open>s1\<close>. Then a second \<open>start-deployment\<close> event for \<open>d1\<close> arrives, and the run it
  starts goes on to the timer of the step \<open>s0\<close>. Then the first run goes on to its end.
\<close>

definition overlap_ex :: "action list" where
  "overlap_ex =
     [Continue 0, Continue 0, Continue 0, Continue 0, Continue 0,
      Deliver (SocketEvent ''k2'' ''u1'' ''start-deployment'' (Data (Str ''d1''))),
      Continue 1, Continue 1, Continue 1,
      Continue 0, Continue 0, Continue 0, Continue 0, Continue 0, Continue 0]"

text \<open>
  A store in which the deployment \<open>d1\<close> has no step rows, and a schedule for one run of
  it: the run at position 0 has had its query answered; then the owner's
  \<open>DELETE /deployments/d1\<close> is served, and the run is resumed.
\<close>

definition world_bare :: world where
  "world_bare =
     \<lparr>db_user = [user_ex ''u1''], db_deployment = [row_ex PENDING], db_deploymentStep = [],
      emitted = [], clock_reads = 0, random_draws = 0, ids_made = 0\<rparr>"

definition deleted_ex :: "action list" where
  "deleted_ex = [Deliver (DeleteDeployment ''u1'' ''d1''), Continue 0]"

section \<open>Substring test\<close>

lemma startsWith_iff: "startsWith s t \<longleftrightarrow> (\<exists>q. s = t @ q)"
  by (induction s t rule: startsWith.induct) auto

lemma includes_str_iff: "includes_str s t \<longleftrightarrow> (\<exists>p q. s = p @ t @ q)"
proof (induction s)
  case Nil
  then show ?case by simp
next
  case (Cons x xs)
  show ?case
  proof
    assume "includes_str (x # xs) t"
    then consider "startsWith (x # xs) t" | "includes_str xs t" by auto
    then show "\<exists>p q. x # xs = p @ t @ q"
    proof cases
      case 1
      then obtain q where "x # xs = t @ q" by (auto simp: startsWith_iff)
      then have "x # xs = [] @ t @ q" by simp
      then show ?thesis by blast
    next
      case 2
      then obtain p q where "xs = p @ t @ q" using Cons.IH by blast
      then have "x # xs = (x # p) @ t @ q" by simp
      then show ?thesis by blast
    qed
  next
    assume "\<exists>p q. x # xs = p @ t @ q"
    then obtain p q where pq: "x # xs = p @ t @ q" by blast
    show "includes_str (x # xs) t"
    proof (cases p)
      case Nil
      with pq have "startsWith (x # xs) t" by (auto simp: startsWith_iff)
      then show ?thesis by simp
    next
      case (Cons y ys)
      with pq have "xs = ys @ t @ q" by simp
      then have "includes_str xs t" using Cons.IH by blast
      then show ?thesis by simp
    qed
  qed
qed

section \<open>Effects of the single operations\<close>

lemma world_of_simps [simp]: "world_of (Inl (x, w)) = w" "world_of (Inr w) = w"
  by (simp_all add: world_of_def)

lemma find_map_upd:
  assumes "\<And>r. key (f r) = key r"
  shows "find (\<lambda>r. key r = j) (map (\<lambda>r. if key r = i then f r else r) tbl) =
         (if j = i then map_option f (find (\<lambda>r. key r = i) tbl) else find (\<lambda>r. key r = j) tbl)"
  using assms by (induction tbl) auto

lemma map_key_upd:
  assumes "\<And>r. key (f r) = key r"
  shows "map key (map (\<lambda>r. if key r = i then f r else r) tbl) = map key tbl"
  using assms by (induction tbl) auto

lemma list_ex_key: "list_ex (\<lambda>r. key r = i) tbl \<longleftrightarrow> i \<in> set (map key tbl)"
  by (auto simp: list_ex_iff)

lemma deploymentStep_update_Inr:
  "deploymentStep_update i f w = Inr w1 \<longleftrightarrow>
     i \<in> set (map s_id (db_deploymentStep w)) \<and>
     w1 = w\<lparr>db_deploymentStep := map (\<lambda>r. if s_id r = i then f r else r) (db_deploymentStep w)\<rparr>"
  by (auto simp: deploymentStep_update_def list_ex_iff)

lemma deployment_update_Inr:
  "deployment_update i f w = Inr w1 \<longleftrightarrow>
     i \<in> set (map d_id (db_deployment w)) \<and>
     w1 = w\<lparr>db_deployment := map (\<lambda>r. if d_id r = i then f r else r) (db_deployment w)\<rparr>"
  by (auto simp: deployment_update_def list_ex_iff)

lemma deploymentStep_update_Inl:
  "deploymentStep_update i f w = Inl x \<longleftrightarrow>
     i \<notin> set (map s_id (db_deploymentStep w)) \<and> x = (RecordNotFound, w)"
  by (auto simp: deploymentStep_update_def list_ex_iff)

lemma deployment_update_Inl:
  "deployment_update i f w = Inl x \<longleftrightarrow>
     i \<notin> set (map d_id (db_deployment w)) \<and> x = (RecordNotFound, w)"
  by (auto simp: deployment_update_def list_ex_iff)

lemma start_step_Inr:
  "start_step e d u s w = Inr w1 \<longleftrightarrow>
     s_id s \<in> set (map s_id (db_deploymentStep w)) \<and>
     w1 = w\<lparr>clock_reads := Suc (clock_reads w),
            db_deploymentStep := map (\<lambda>r. if s_id r = s_id s
                then r\<lparr>s_status := RUNNING, s_startedAt := Some (clk e (clock_reads w))\<rparr> else r)
              (db_deploymentStep w),
            emitted := emitted w @ [(userRoom u,
              step_update (d_id d) (s_id s) RUNNING (''Started: '' @ s_name s) None)]\<rparr>"
  by (auto simp: start_step_def deploymentStep_update_Inr deploymentStep_update_Inl tick_def emit_def now_def
      split: sum.splits)

lemma complete_step_Inr:
  "complete_step e d u s a w = Inr w1 \<longleftrightarrow>
     s_id s \<in> set (map s_id (db_deploymentStep w)) \<and>
     w1 = w\<lparr>clock_reads := Suc (clock_reads w),
            db_deploymentStep := map (\<lambda>r. if s_id r = s_id s
                then r\<lparr>s_status := COMPLETED, s_completedAt := Some (clk e (clock_reads w)),
                       s_logs := Some (successLogs s a)\<rparr> else r)
              (db_deploymentStep w),
            emitted := emitted w @ [(userRoom u,
              step_update (d_id d) (s_id s) COMPLETED (''Completed: '' @ s_name s) None)]\<rparr>"
  by (auto simp: complete_step_def deploymentStep_update_Inr deploymentStep_update_Inl tick_def emit_def now_def
      split: sum.splits)

lemma finish_deployment_Inr:
  "finish_deployment e d u t0 w = Inr w1 \<longleftrightarrow>
     d_id d \<in> set (map d_id (db_deployment w)) \<and>
     w1 = w\<lparr>clock_reads := Suc (Suc (clock_reads w)),
            db_deployment := map (\<lambda>r. if d_id r = d_id d
                then r\<lparr>d_status := COMPLETED, d_completedAt := Some (clk e (Suc (clock_reads w))),
                       d_duration := Some (seconds_since t0 (clk e (clock_reads w)))\<rparr> else r)
              (db_deployment w),
            emitted := emitted w @ [(userRoom u,
              deployment_complete (d_id d) COMPLETED ''Deployment completed successfully!''
                (seconds_since t0 (clk e (clock_reads w))) (Some (serverInfo_of e (d_modpackName d))))]\<rparr>"
  by (auto simp: finish_deployment_def deployment_update_Inr deployment_update_Inl tick_def emit_def now_def Let_def
      split: sum.splits)

lemma fail_step_Inr:
  "fail_step e d u t0 s w = Inr w1 \<longleftrightarrow>
     s_id s \<in> set (map s_id (db_deploymentStep w)) \<and>
     d_id d \<in> set (map d_id (db_deployment w)) \<and>
     w1 = w\<lparr>clock_reads := Suc (Suc (Suc (Suc (clock_reads w)))),
            db_deploymentStep := map (\<lambda>r. if s_id r = s_id s
                then r\<lparr>s_status := FAILED, s_completedAt := Some (clk e (clock_reads w)),
                       s_logs := Some failureLogs\<rparr> else r)
              (db_deploymentStep w),
            db_deployment := map (\<lambda>r. if d_id r = d_id d
                then r\<lparr>d_status := FAILED, d_completedAt := Some (clk e (Suc (clock_reads w))),
                       d_duration := Some (seconds_since t0 (clk e (Suc (Suc (clock_reads w))))),
                       d_errorMsg := Some (''Deployment failed at step: '' @ s_name s)\<rparr> else r)
              (db_deployment w),
            emitted := emitted w @
              [(userRoom u, step_update (d_id d) (s_id s) FAILED (''Failed: '' @ s_name s)
                  (Some ''Connection timeout - please try again'')),
               (userRoom u, deployment_complete (d_id d) FAILED ''Deployment failed''
                  (seconds_since t0 (clk e (Suc (Suc (Suc (clock_reads w)))))) None)]\<rparr>"
  by (auto simp: fail_step_def deployment_update_Inr deployment_update_Inl deploymentStep_update_Inr deploymentStep_update_Inl tick_def emit_def
      now_def Let_def split: sum.splits)



lemma start_step_keys:
  "start_step e d u s w = Inr w1 \<Longrightarrow>
     map s_id (db_deploymentStep w1) = map s_id (db_deploymentStep w) \<and>
     db_deployment w1 = db_deployment w \<and> random_draws w1 = random_draws w \<and>
     clock_reads w1 = Suc (clock_reads w)"
  by (simp add: start_step_Inr if_distrib [where f = s_id])

lemma complete_step_keys:
  "complete_step e d u s a w = Inr w1 \<Longrightarrow>
     map s_id (db_deploymentStep w1) = map s_id (db_deploymentStep w) \<and>
     db_deployment w1 = db_deployment w \<and> random_draws w1 = random_draws w \<and>
     clock_reads w1 = Suc (clock_reads w)"
  by (simp add: complete_step_Inr if_distrib [where f = s_id])

lemma drawn_simps [simp]:
  "db_deployment (drawn w) = db_deployment w"
  "db_deploymentStep (drawn w) = db_deploymentStep w"
  "emitted (drawn w) = emitted w"
  "clock_reads (drawn w) = clock_reads w"
  "random_draws (drawn w) = Suc (random_draws w)"
  by (simp_all add: drawn_def)

section \<open>The loop returns\<close>

lemma steps_loop_returns:
  assumes "d_id d \<in> set (map d_id (db_deployment w))"
    and "s_id ` set rest \<subseteq> set (map s_id (db_deploymentStep w))"
  shows "\<exists>w'. steps_loop e d u t0 fa i rest w = Inr w'"
  using assms
proof (induction rest arbitrary: i w)
  case Nil
  then show ?case by (simp add: finish_deployment_Inr)
next
  case (Cons s rest)
  from Cons.prems obtain w1 where w1: "start_step e d u s w = Inr w1"
    by (auto simp: start_step_Inr)
  note keys1 = start_step_keys [OF w1]
  let ?a = "actualDuration_of e d i w1"
  show ?case
  proof (cases "int i = fa")
    case True
    have "\<exists>w'. fail_step e d u t0 s (drawn w1) = Inr w'"
      using Cons.prems keys1 by (simp add: fail_step_Inr)
    with w1 True show ?thesis by (simp add: Let_def)
  next
    case False
    obtain w3 where w3: "complete_step e d u s ?a (drawn w1) = Inr w3"
      using Cons.prems keys1 by (auto simp: complete_step_Inr)
    note keys3 = complete_step_keys [OF w3]
    have "\<exists>w'. steps_loop e d u t0 fa (Suc i) rest w3 = Inr w'"
      using Cons.prems keys1 keys3 by (intro Cons.IH) auto
    with w1 w3 False show ?thesis by (simp add: Let_def)
  qed
qed


section \<open>Unfolding one iteration\<close>

lemma steps_loop_Cons_Inr:
  "steps_loop e d u t0 fa i (s # rest) w = Inr w' \<longleftrightarrow>
     (\<exists>w1. start_step e d u s w = Inr w1 \<and>
       (if int i = fa then fail_step e d u t0 s (drawn w1) = Inr w'
        else \<exists>w3. complete_step e d u s
                     (actualDuration_of e d i w1)
                     (drawn w1) = Inr w3 \<and>
                   steps_loop e d u t0 fa (Suc i) rest w3 = Inr w'))"
  by (auto simp: Let_def split: sum.splits)

lemma expectedUpdates_Nil: "expectedUpdates x [] = []"
  by (simp add: expectedUpdates_def ranToCompletion_def)

lemma expectedUpdates_Cons_0:
  "expectedUpdates 0 (s # rest) = [(s_id s, RUNNING), (s_id s, FAILED)]"
  by (simp add: expectedUpdates_def ranToCompletion_def)

lemma expectedUpdates_in:
  "0 \<le> x \<and> x < int (length ss) \<Longrightarrow>
   expectedUpdates x ss =
     ranToCompletion (take (nat x) ss) @ [(s_id (ss ! nat x), RUNNING), (s_id (ss ! nat x), FAILED)]"
  unfolding expectedUpdates_def by (rule if_P)

lemma expectedUpdates_out:
  "\<not> (0 \<le> x \<and> x < int (length ss)) \<Longrightarrow> expectedUpdates x ss = ranToCompletion ss"
  unfolding expectedUpdates_def by (rule if_not_P)

lemma ranToCompletion_Cons:
  "ranToCompletion (s # ss) = (s_id s, RUNNING) # (s_id s, COMPLETED) # ranToCompletion ss"
  by (simp add: ranToCompletion_def)

lemma expectedUpdates_Cons_other:
  assumes "x \<noteq> 0"
  shows "expectedUpdates x (s # rest) =
           (s_id s, RUNNING) # (s_id s, COMPLETED) # expectedUpdates (x - 1) rest"
proof (cases "0 \<le> x \<and> x < int (length (s # rest))")
  case True
  with assms have n: "nat x = Suc (nat (x - 1))" by arith
  from True assms have in': "0 \<le> x - 1 \<and> x - 1 < int (length rest)" by auto
  show ?thesis
    unfolding expectedUpdates_in [OF True] expectedUpdates_in [OF in'] n
    by (simp add: ranToCompletion_Cons)
next
  case False
  with assms have out': "\<not> (0 \<le> x - 1 \<and> x - 1 < int (length rest))" by auto
  show ?thesis
    unfolding expectedUpdates_out [OF False] expectedUpdates_out [OF out']
    by (rule ranToCompletion_Cons)
qed

lemma step_updates_append [simp]: "step_updates (xs @ ys) = step_updates xs @ step_updates ys"
  by (simp add: step_updates_def)

lemma completions_append [simp]: "completions (xs @ ys) = completions xs @ completions ys"
  by (simp add: completions_def)

lemma errors_append [simp]: "errors (xs @ ys) = errors xs @ errors ys"
  by (simp add: errors_def)

lemma errors_simps [simp]:
  "errors [] = []"
  "errors ((c, step_update a b st m x) # evs) = errors evs"
  "errors ((c, deployment_complete a st m n i) # evs) = errors evs"
  "errors ((c, deployment_status a st m) # evs) = errors evs"
  "errors ((c, deployment_error m) # evs) = m # errors evs"
  by (simp_all add: errors_def errorOf_def)

lemma step_updates_simps [simp]:
  "step_updates [] = []"
  "step_updates ((c, step_update a b st m x) # evs) = (b, st) # step_updates evs"
  "step_updates ((c, deployment_complete a st m n i) # evs) = step_updates evs"
  "step_updates ((c, deployment_status a st m) # evs) = step_updates evs"
  "step_updates ((c, deployment_error m) # evs) = step_updates evs"
  by (simp_all add: step_updates_def stepUpdateOf_def)

lemma completions_simps [simp]:
  "completions [] = []"
  "completions ((c, step_update a b st m x) # evs) = completions evs"
  "completions ((c, deployment_complete a st m n i) # evs) = st # completions evs"
  "completions ((c, deployment_status a st m) # evs) = completions evs"
  "completions ((c, deployment_error m) # evs) = completions evs"
  by (simp_all add: completions_def completeOf_def)

section \<open>Events of the loop\<close>

lemma steps_loop_events:
  assumes "steps_loop e d u t0 fa i rest w = Inr w'"
  shows "\<exists>evs. emitted w' = emitted w @ evs \<and>
           step_updates evs = expectedUpdates (fa - int i) rest \<and>
           completions evs =
             [if 0 \<le> fa - int i \<and> fa - int i < int (length rest) then FAILED else COMPLETED] \<and>
           list_all (\<lambda>ce. fst ce = userRoom u) evs \<and> errors evs = []"
  using assms
proof (induction rest arbitrary: i w)
  case Nil
  then show ?case
    by (auto simp: finish_deployment_Inr expectedUpdates_Nil)
next
  case (Cons s rest)
  from Cons.prems obtain w1 where w1: "start_step e d u s w = Inr w1"
    and rest: "if int i = fa then fail_step e d u t0 s (drawn w1) = Inr w'
        else \<exists>w3. complete_step e d u s
                     (actualDuration_of e d i w1)
                     (drawn w1) = Inr w3 \<and>
                   steps_loop e d u t0 fa (Suc i) rest w3 = Inr w'"
    unfolding steps_loop_Cons_Inr by blast
  have ev1: "emitted w1 = emitted w @
      [(userRoom u, step_update (d_id d) (s_id s) RUNNING (''Started: '' @ s_name s) None)]"
    using w1 by (simp add: start_step_Inr)
  show ?case
  proof (cases "int i = fa")
    case True
    with rest have "fail_step e d u t0 s (drawn w1) = Inr w'" by simp
    then have "emitted w' = emitted w1 @
       [(userRoom u, step_update (d_id d) (s_id s) FAILED (''Failed: '' @ s_name s)
                  (Some ''Connection timeout - please try again'')),
        (userRoom u, deployment_complete (d_id d) FAILED ''Deployment failed''
                  (seconds_since t0 (clk e (Suc (Suc (Suc (clock_reads w1)))))) None)]"
      by (simp add: fail_step_Inr)
    with ev1 True show ?thesis
      by (simp add: expectedUpdates_Cons_0)
  next
    case False
    with rest obtain w3 where w3: "complete_step e d u s
                     (actualDuration_of e d i w1)
                     (drawn w1) = Inr w3"
      and loop: "steps_loop e d u t0 fa (Suc i) rest w3 = Inr w'" by auto
    have ev3: "emitted w3 = emitted w1 @
      [(userRoom u, step_update (d_id d) (s_id s) COMPLETED (''Completed: '' @ s_name s) None)]"
      using w3 by (simp add: complete_step_Inr)
    define x where "x = fa - int (Suc i)"
    from Cons.IH [OF loop] obtain evs where evs: "emitted w' = emitted w3 @ evs"
      "step_updates evs = expectedUpdates x rest"
      "completions evs = [if 0 \<le> x \<and> x < int (length rest) then FAILED else COMPLETED]"
      "list_all (\<lambda>ce. fst ce = userRoom u) evs" "errors evs = []" unfolding x_def by blast
    have x0: "fa - int i \<noteq> 0" and x1: "fa - int i - 1 = x" using False by (auto simp: x_def)
    have rng: "(0 \<le> fa - int i \<and> fa - int i < int (length (s # rest))) =
               (0 \<le> x \<and> x < int (length rest))"
      using False by (auto simp: x_def)
    have eq: "expectedUpdates (fa - int i) (s # rest) =
           (s_id s, RUNNING) # (s_id s, COMPLETED) # expectedUpdates x rest"
      using expectedUpdates_Cons_other [OF x0, of s rest] unfolding x1 .
    let ?evs = "(userRoom u, step_update (d_id d) (s_id s) RUNNING (''Started: '' @ s_name s) None) #
      (userRoom u, step_update (d_id d) (s_id s) COMPLETED (''Completed: '' @ s_name s) None) # evs"
    have a: "emitted w' = emitted w @ ?evs" using ev1 ev3 evs(1) by simp
    have b: "step_updates ?evs = expectedUpdates (fa - int i) (s # rest)"
      unfolding eq using evs(2) by simp
    have c: "completions ?evs =
      [if 0 \<le> fa - int i \<and> fa - int i < int (length (s # rest)) then FAILED else COMPLETED]"
      unfolding rng using evs(3) by simp
    have d: "list_all (\<lambda>ce. fst ce = userRoom u) ?evs" "errors ?evs = []"
      using evs(4,5) by simp_all
    from a b c d show ?thesis by blast
  qed
qed


section \<open>Rows of the steps\<close>

lemma start_step_stepRow:
  "start_step e d u s w = Inr w1 \<Longrightarrow>
   stepRow w1 j =
     (if j = s_id s
      then map_option (\<lambda>r. r\<lparr>s_status := RUNNING, s_startedAt := Some (clk e (clock_reads w))\<rparr>)
             (stepRow w (s_id s))
      else stepRow w j)"
  by (simp add: start_step_Inr stepRow_def find_map_upd)

lemma complete_step_stepRow:
  "complete_step e d u s a w = Inr w1 \<Longrightarrow>
   stepRow w1 j =
     (if j = s_id s
      then map_option (\<lambda>r. r\<lparr>s_status := COMPLETED, s_completedAt := Some (clk e (clock_reads w)),
                              s_logs := Some (successLogs s a)\<rparr>) (stepRow w (s_id s))
      else stepRow w j)"
  by (simp add: complete_step_Inr stepRow_def find_map_upd)

lemma fail_step_stepRow:
  "fail_step e d u t0 s w = Inr w1 \<Longrightarrow>
   stepRow w1 j =
     (if j = s_id s
      then map_option (\<lambda>r. r\<lparr>s_status := FAILED, s_completedAt := Some (clk e (clock_reads w)),
                              s_logs := Some failureLogs\<rparr>) (stepRow w (s_id s))
      else stepRow w j)"
  by (simp add: fail_step_Inr stepRow_def find_map_upd)

lemma stepRow_present:
  "i \<in> set (map s_id (db_deploymentStep w)) \<Longrightarrow> \<exists>r. stepRow w i = Some r"
  by (cases "stepRow w i") (auto simp: stepRow_def find_None_iff)

lemma start_step_present:
  "start_step e d u s w = Inr w1 \<Longrightarrow> \<exists>r. stepRow w (s_id s) = Some r"
  by (simp add: start_step_Inr stepRow_present)

lemma stepRow_drawn [simp]: "stepRow (drawn w) j = stepRow w j"
  by (simp add: stepRow_def)

lemma steps_loop_frame:
  assumes "steps_loop e d u t0 fa i rest w = Inr w'" and "j \<notin> s_id ` set rest"
  shows "stepRow w' j = stepRow w j"
  using assms
proof (induction rest arbitrary: i w)
  case Nil
  then show ?case by (simp add: finish_deployment_Inr stepRow_def)
next
  case (Cons s rest)
  from Cons.prems(1) obtain w1 where w1: "start_step e d u s w = Inr w1"
    and rest: "if int i = fa then fail_step e d u t0 s (drawn w1) = Inr w'
        else \<exists>w3. complete_step e d u s
                     (actualDuration_of e d i w1)
                     (drawn w1) = Inr w3 \<and>
                   steps_loop e d u t0 fa (Suc i) rest w3 = Inr w'"
    unfolding steps_loop_Cons_Inr by blast
  from Cons.prems(2) have j: "j \<noteq> s_id s" "j \<notin> s_id ` set rest" by auto
  have r1: "stepRow w1 j = stepRow w j" using start_step_stepRow [OF w1] j by simp
  show ?case
  proof (cases "int i = fa")
    case True
    with rest have "fail_step e d u t0 s (drawn w1) = Inr w'" by simp
    from fail_step_stepRow [OF this] j r1 show ?thesis by simp
  next
    case False
    with rest obtain w3 where w3: "complete_step e d u s
                     (actualDuration_of e d i w1)
                     (drawn w1) = Inr w3"
      and loop: "steps_loop e d u t0 fa (Suc i) rest w3 = Inr w'" by auto
    have "stepRow w3 j = stepRow w j" using complete_step_stepRow [OF w3] j r1 by simp
    with Cons.IH [OF loop j(2)] show ?thesis by simp
  qed
qed


section \<open>Row of the deployment\<close>

lemma deploymentRow_present:
  "i \<in> set (map d_id (db_deployment w)) \<Longrightarrow> \<exists>r. deploymentRow w i = Some r"
  by (cases "deploymentRow w i") (auto simp: deploymentRow_def find_None_iff)

lemma steps_loop_deployment:
  assumes "steps_loop e d u t0 fa i rest w = Inr w'"
  shows "\<exists>r. deploymentRow w (d_id d) = Some r \<and> 2 \<le> clock_reads w' \<and>
           clock_reads w \<le> clock_reads w' - 2 \<and>
           deploymentRow w' (d_id d) =
             Some (if 0 \<le> fa - int i \<and> fa - int i < int (length rest)
                   then r\<lparr>d_status := FAILED,
                          d_completedAt := Some (clk e (clock_reads w' - 3)),
                          d_duration := Some (seconds_since t0 (clk e (clock_reads w' - 2))),
                          d_errorMsg := Some (''Deployment failed at step: '' @
                                               s_name (rest ! nat (fa - int i)))\<rparr>
                   else r\<lparr>d_status := COMPLETED,
                          d_completedAt := Some (clk e (clock_reads w' - 1)),
                          d_duration := Some (seconds_since t0 (clk e (clock_reads w' - 2)))\<rparr>)"
  using assms
proof (induction rest arbitrary: i w)
  case Nil
  then obtain r where "deploymentRow w (d_id d) = Some r"
    using deploymentRow_present by (auto simp: finish_deployment_Inr)
  moreover have out: "\<not> (0 \<le> fa - int i \<and> fa - int i < int (length ([] :: DeploymentStep list)))"
    by simp
  ultimately show ?case
    unfolding if_not_P [OF out] using Nil
    by (simp add: finish_deployment_Inr deploymentRow_def find_map_upd)
next
  case (Cons s rest)
  from Cons.prems(1) obtain w1 where w1: "start_step e d u s w = Inr w1"
    and rest: "if int i = fa then fail_step e d u t0 s (drawn w1) = Inr w'
        else \<exists>w3. complete_step e d u s
                     (actualDuration_of e d i w1)
                     (drawn w1) = Inr w3 \<and>
                   steps_loop e d u t0 fa (Suc i) rest w3 = Inr w'"
    unfolding steps_loop_Cons_Inr by blast
  note k1 = start_step_keys [OF w1]
  show ?case
  proof (cases "int i = fa")
    case True
    with rest have f: "fail_step e d u t0 s (drawn w1) = Inr w'" by simp
    then obtain r where "deploymentRow w (d_id d) = Some r"
      using deploymentRow_present k1 by (auto simp: fail_step_Inr)
    with f True k1 show ?thesis
      by (simp add: fail_step_Inr deploymentRow_def find_map_upd)
  next
    case False
    with rest obtain w3 where w3: "complete_step e d u s
                     (actualDuration_of e d i w1)
                     (drawn w1) = Inr w3"
      and loop: "steps_loop e d u t0 fa (Suc i) rest w3 = Inr w'" by auto
    note k3 = complete_step_keys [OF w3]
    have same: "deploymentRow w3 (d_id d) = deploymentRow w (d_id d)"
      "clock_reads w3 = Suc (Suc (clock_reads w))"
      using k1 k3 by (simp_all add: deploymentRow_def)
    define x where "x = fa - int (Suc i)"
    have x0: "fa - int i \<noteq> 0" and x1: "fa - int i = x + 1" using False by (auto simp: x_def)
    have rng: "(0 \<le> fa - int i \<and> fa - int i < int (length (s # rest))) =
               (0 \<le> x \<and> x < int (length rest))"
      using False by (auto simp: x_def)
    have nth: "0 \<le> x \<Longrightarrow> (s # rest) ! nat (fa - int i) = rest ! nat x"
      unfolding x1 by (simp add: nat_add_distrib)
    from Cons.IH [OF loop] same obtain r where r: "deploymentRow w (d_id d) = Some r"
      "2 \<le> clock_reads w'" "Suc (Suc (clock_reads w)) \<le> clock_reads w' - 2"
      "deploymentRow w' (d_id d) =
             Some (if 0 \<le> x \<and> x < int (length rest)
                   then r\<lparr>d_status := FAILED,
                          d_completedAt := Some (clk e (clock_reads w' - 3)),
                          d_duration := Some (seconds_since t0 (clk e (clock_reads w' - 2))),
                          d_errorMsg := Some (''Deployment failed at step: '' @
                                               s_name (rest ! nat x))\<rparr>
                   else r\<lparr>d_status := COMPLETED,
                          d_completedAt := Some (clk e (clock_reads w' - 1)),
                          d_duration := Some (seconds_since t0 (clk e (clock_reads w' - 2)))\<rparr>)"
      unfolding x_def by auto
    show ?thesis
      unfolding rng using r nth by (cases "0 \<le> x \<and> x < int (length rest)") auto
  qed
qed


section \<open>Start of the first step\<close>

lemma steps_loop_startedAt:
  assumes "steps_loop e d u t0 fa i (s # rest) w = Inr w'" and "s_id s \<notin> s_id ` set rest"
  shows "map_option s_startedAt (stepRow w' (s_id s)) = Some (Some (clk e (clock_reads w)))"
proof -
  from assms(1) obtain w1 where w1: "start_step e d u s w = Inr w1"
    and rest: "if int i = fa then fail_step e d u t0 s (drawn w1) = Inr w'
        else \<exists>w3. complete_step e d u s
                     (actualDuration_of e d i w1)
                     (drawn w1) = Inr w3 \<and>
                   steps_loop e d u t0 fa (Suc i) rest w3 = Inr w'"
    unfolding steps_loop_Cons_Inr by blast
  from start_step_present [OF w1] obtain r where r: "stepRow w (s_id s) = Some r" by blast
  note row1 = start_step_stepRow [OF w1]
  show ?thesis
  proof (cases "int i = fa")
    case True
    with rest have f: "fail_step e d u t0 s (drawn w1) = Inr w'" by simp
    from fail_step_stepRow [OF f] r row1 show ?thesis by simp
  next
    case False
    with rest obtain w3 where w3: "complete_step e d u s
                     (actualDuration_of e d i w1)
                     (drawn w1) = Inr w3"
      and loop: "steps_loop e d u t0 fa (Suc i) rest w3 = Inr w'" by auto
    from steps_loop_frame [OF loop assms(2)] complete_step_stepRow [OF w3] r row1
    show ?thesis by simp
  qed
qed

section \<open>The whole run\<close>

lemma failAtStep_of_cong:
  "random_draws w1 = random_draws w \<Longrightarrow> failAtStep_of e d w1 = failAtStep_of e d w"
  by (simp add: failAtStep_of_def shouldFail_def random_def drawn_def)

lemma simulateDeployment_Inr:
  "simulateDeployment e d u w = Inr w' \<longleftrightarrow>
     d_id d \<in> set (map d_id (db_deployment w)) \<and>
     steps_loop e d u (clk e (clock_reads w)) (failAtStep_of e d w) 0 (steps d) (started e d u w)
       = Inr w'"
proof -
  let ?w2 = "emit (userRoom u) (deployment_status (d_id d) RUNNING ''Deployment started'')
                 ((tick w)\<lparr>db_deployment :=
                    map (\<lambda>r. if d_id r = d_id d then r\<lparr>d_status := RUNNING\<rparr> else r)
                      (db_deployment (tick w))\<rparr>)"
  have rd: "random_draws ?w2 = random_draws w" by (simp add: emit_def tick_def)
  then have sf: "shouldFail e ?w2 = shouldFail e w" by (simp add: shouldFail_def random_def)
  have fa: "failAtStep_of e d ?w2 = failAtStep_of e d w" using rd by (rule failAtStep_of_cong)
  show ?thesis
  proof (cases "d_id d \<in> set (map d_id (db_deployment w))")
    case True
    then have "deployment_update (d_id d) (\<lambda>r. r\<lparr>d_status := RUNNING\<rparr>) (tick w) =
        Inr ((tick w)\<lparr>db_deployment :=
                    map (\<lambda>r. if d_id r = d_id d then r\<lparr>d_status := RUNNING\<rparr> else r)
                      (db_deployment (tick w))\<rparr>)"
      by (simp add: deployment_update_Inr tick_def)
    with True show ?thesis
      unfolding simulateDeployment_def started_def Let_def now_def
      by (simp only: sum.case sf fa simp_thms)
  next
    case False
    then have "deployment_update (d_id d) (\<lambda>r. r\<lparr>d_status := RUNNING\<rparr>) (tick w) =
        Inl (RecordNotFound, tick w)"
      by (simp add: deployment_update_Inl tick_def)
    with False show ?thesis
      unfolding simulateDeployment_def Let_def by simp
  qed
qed

lemma started_simps:
  "map d_id (db_deployment (started e d u w)) = map d_id (db_deployment w)"
  "db_deploymentStep (started e d u w) = db_deploymentStep w"
  "clock_reads (started e d u w) = Suc (clock_reads w)"
  "emitted (started e d u w) =
     emitted w @ [(userRoom u, deployment_status (d_id d) RUNNING ''Deployment started'')]"
  "stepRow (started e d u w) j = stepRow w j"
  "deploymentRow (started e d u w) (d_id d) =
     map_option (\<lambda>r. r\<lparr>d_status := RUNNING\<rparr>) (deploymentRow w (d_id d))"
  by (simp_all add: started_def Let_def tick_def emit_def drawn_def if_distrib [where f = d_id]
      stepRow_def deploymentRow_def find_map_upd)

lemma stepsPresent_iff:
  "stepsPresent ss w \<longleftrightarrow> s_id ` set ss \<subseteq> set (map s_id (db_deploymentStep w))"
  unfolding stepsPresent_def list_all_iff list_ex_key by auto

lemma simulateDeployment_returns:
  assumes "deploymentPresent (d_id d) w" and "stepsPresent (steps d) w"
  shows "\<exists>w'. simulateDeployment e d u w = Inr w'"
proof -
  from assms(1) have p: "d_id d \<in> set (map d_id (db_deployment w))"
    by (simp add: deploymentPresent_def list_ex_key)
  from assms(2) have "s_id ` set (steps d) \<subseteq> set (map s_id (db_deploymentStep w))"
    by (simp only: stepsPresent_iff)
  then have "\<exists>w'. steps_loop e d u (clk e (clock_reads w)) (failAtStep_of e d w) 0 (steps d)
                (started e d u w) = Inr w'"
    using p by (intro steps_loop_returns) (simp_all add: started_simps)
  with p show ?thesis by (simp add: simulateDeployment_Inr)
qed


section \<open>Facts about a whole run\<close>

lemma simulateDeployment_events:
  assumes "simulateDeployment e d u w = Inr w'"
  shows "\<exists>evs. emitted w' =
             emitted w @ (userRoom u, deployment_status (d_id d) RUNNING ''Deployment started'') # evs \<and>
           step_updates evs = expectedUpdates (failAtStep_of e d w) (steps d) \<and>
           completions evs =
             [if 0 \<le> failAtStep_of e d w \<and> failAtStep_of e d w < int (length (steps d))
              then FAILED else COMPLETED] \<and>
           list_all (\<lambda>ce. fst ce = userRoom u) evs \<and> errors evs = []"
proof -
  from assms have loop: "steps_loop e d u (clk e (clock_reads w)) (failAtStep_of e d w) 0 (steps d)
      (started e d u w) = Inr w'" by (simp add: simulateDeployment_Inr)
  from steps_loop_events [OF loop] show ?thesis by (simp add: started_simps)
qed


lemma simulateDeployment_deployment:
  assumes "simulateDeployment e d u w = Inr w'"
  shows "\<exists>r. deploymentRow w (d_id d) = Some r \<and> clock_reads w < clock_reads w' - 2 \<and>
           deploymentRow w' (d_id d) =
             Some (if 0 \<le> failAtStep_of e d w \<and> failAtStep_of e d w < int (length (steps d))
                   then r\<lparr>d_status := FAILED,
                          d_completedAt := Some (clk e (clock_reads w' - 3)),
                          d_duration := Some (seconds_since (clk e (clock_reads w))
                                                (clk e (clock_reads w' - 2))),
                          d_errorMsg := Some (''Deployment failed at step: '' @
                                               s_name (steps d ! nat (failAtStep_of e d w)))\<rparr>
                   else r\<lparr>d_status := COMPLETED,
                          d_completedAt := Some (clk e (clock_reads w' - 1)),
                          d_duration := Some (seconds_since (clk e (clock_reads w))
                                                (clk e (clock_reads w' - 2)))\<rparr>)"
proof -
  from assms have loop: "steps_loop e d u (clk e (clock_reads w)) (failAtStep_of e d w) 0 (steps d)
      (started e d u w) = Inr w'" and p: "d_id d \<in> set (map d_id (db_deployment w))"
    by (simp_all add: simulateDeployment_Inr)
  from deploymentRow_present [OF p] obtain r where r: "deploymentRow w (d_id d) = Some r" by blast
  from steps_loop_deployment [OF loop] r show ?thesis
    by (cases "0 \<le> failAtStep_of e d w \<and> failAtStep_of e d w < int (length (steps d))")
       (auto simp: started_simps)
qed


section \<open>Evaluating the examples\<close>

lemmas run_defs = world_of_def simulateDeployment_def deployment_ex_def with_steps_def row_ex_def
  steps_ex_def step_ex_def world_ex_def now_def tick_def emit_def drawn_def random_def
  deployment_update_def deploymentStep_update_def shouldFail_def failAtStep_of_def
  start_step_def complete_step_def fail_step_def finish_deployment_def seconds_since_def
  deploymentRow_def stepRow_def Let_def actualDuration_of_def to_double_def nearest_double_def
  scale_up.simps round_half_even_def

section \<open>Partial failure\<close>




section \<open>Order of the broadcasts\<close>

lemma find_distinct_key:
  "distinct (map key xs) \<Longrightarrow> x \<in> set xs \<Longrightarrow> find (\<lambda>y. key y = key x) xs = Some x"
  by (induction xs) force+

lemma orderIndex_member:
  "distinct (map s_id (steps d)) \<Longrightarrow> s \<in> set (steps d) \<Longrightarrow> orderIndex d (s_id s) = s_order s"
  by (simp add: orderIndex_def find_distinct_key)

lemma sorted_twice:
  "sorted (map f xs) \<Longrightarrow> sorted (concat (map (\<lambda>x. [f x, f x]) xs))"
  by (induction xs) auto

lemma orderIndex_twice:
  assumes "distinct (map s_id (steps d))" and "set ss \<subseteq> set (steps d)"
  shows "map (orderIndex d) (concat (map (\<lambda>s. [s_id s, s_id s]) ss)) =
         concat (map (\<lambda>s. [s_order s, s_order s]) ss)"
  using assms(2) by (induction ss) (simp_all add: orderIndex_member [OF assms(1)])

lemma ranToCompletion_fst:
  "map fst (ranToCompletion ss) = concat (map (\<lambda>s. [s_id s, s_id s]) ss)"
  by (induction ss) (simp_all add: ranToCompletion_def)

lemma expectedUpdates_fst:
  "map fst (expectedUpdates x ss) =
     concat (map (\<lambda>s. [s_id s, s_id s])
       (take (if 0 \<le> x \<and> x < int (length ss) then Suc (nat x) else length ss) ss))"
proof (cases "0 \<le> x \<and> x < int (length ss)")
  case True
  then have n: "nat x < length ss" by auto
  show ?thesis
    unfolding expectedUpdates_in [OF True] if_P [OF True] take_Suc_conv_app_nth [OF n]
    by (simp add: ranToCompletion_fst)
next
  case False
  show ?thesis
    unfolding expectedUpdates_out [OF False] if_not_P [OF False]
    by (simp add: ranToCompletion_fst)
qed

lemma expectedUpdates_sorted:
  assumes "distinct (map s_id (steps d))" and "sorted (map s_order (steps d))"
  shows "sorted (map (\<lambda>p. orderIndex d (fst p)) (expectedUpdates x (steps d)))"
proof -
  define m where "m = (if 0 \<le> x \<and> x < int (length (steps d)) then Suc (nat x) else length (steps d))"
  have "map (\<lambda>p. orderIndex d (fst p)) (expectedUpdates x (steps d)) =
        map (orderIndex d) (map fst (expectedUpdates x (steps d)))" by simp
  also have "\<dots> = map (orderIndex d) (concat (map (\<lambda>s. [s_id s, s_id s]) (take m (steps d))))"
    unfolding expectedUpdates_fst m_def ..
  also have "\<dots> = concat (map (\<lambda>s. [s_order s, s_order s]) (take m (steps d)))"
    by (rule orderIndex_twice [OF assms(1)]) (rule set_take_subset)
  finally have eq: "map (\<lambda>p. orderIndex d (fst p)) (expectedUpdates x (steps d)) =
      concat (map (\<lambda>s. [s_order s, s_order s]) (take m (steps d)))" .
  have "sorted (map s_order (take m (steps d)))"
    unfolding take_map [symmetric] using assms(2) by (rule sorted_wrt_take)
  then show ?thesis unfolding eq by (rule sorted_twice)
qed

section \<open>The failure decision\<close>

lemma ranToCompletion_no_failure: "filter (\<lambda>p. snd p = FAILED) (ranToCompletion ss) = []"
  by (induction ss) (simp_all add: ranToCompletion_def)

lemma expectedUpdates_one_failure:
  "length (filter (\<lambda>p. snd p = FAILED) (expectedUpdates x ss)) \<le> 1"
  by (simp add: expectedUpdates_def ranToCompletion_no_failure)

lemma failAtStep_of_unfold:
  "failAtStep_of e d w =
     (if rnd e (random_draws w) < to_double (2 / 10)
      then \<lfloor>to_double (rnd e (Suc (random_draws w)) * real (length (steps d)))\<rfloor> else - 1)"
  by (simp add: failAtStep_of_def shouldFail_def random_def drawn_def)

text \<open>Rounding to a double: the doublings stop at \<open>2^52\<close> or at the smallest quantum.\<close>

lemma scale_up_reaches: "2 ^ 52 \<le> x * 2 ^ scale_up n x \<or> scale_up n x = n"
proof (induction n x rule: scale_up.induct)
  case (1 n x)
  show ?case
  proof (cases "n = 0 \<or> 2 ^ 52 \<le> x")
    case True
    then show ?thesis by (auto simp: scale_up.simps [of n x])
  next
    case False
    from 1 [OF False] have "2 ^ 52 \<le> 2 * x * 2 ^ scale_up (n - 1) (2 * x) \<or>
        scale_up (n - 1) (2 * x) = n - 1" .
    with False show ?thesis
      by (auto simp: scale_up.simps [of n x] mult.assoc mult.left_commute)
  qed
qed

lemma round_half_even_less:
  assumes "y < of_int m - 1 / 2"
  shows "round_half_even y < m"
proof -
  have f: "of_int \<lfloor>y\<rfloor> \<le> y" by simp
  with assms have "of_int \<lfloor>y\<rfloor> < (of_int m :: real)" by linarith
  then have le: "\<lfloor>y\<rfloor> \<le> m - 1" by simp
  show ?thesis
  proof (cases "\<lfloor>y\<rfloor> = m - 1")
    case True
    then have "of_int \<lfloor>y\<rfloor> = (of_int m :: real) - 1" by simp
    with assms have "y - of_int \<lfloor>y\<rfloor> < 1 / 2" by linarith
    with True show ?thesis by (simp add: round_half_even_def Let_def)
  next
    case False
    with le have "\<lfloor>y\<rfloor> + 1 < m" by simp
    then show ?thesis by (simp add: round_half_even_def Let_def)
  qed
qed

lemma round_half_even_nonneg: "0 \<le> y \<Longrightarrow> 0 \<le> round_half_even y"
  by (simp add: round_half_even_def Let_def)

text \<open>
  The product of a double in \<open>[0, 1)\<close>, which is at most \<open>1 - 2^-53\<close>, with the number
  of elements of an array, which is below \<open>2^32\<close>, rounds to a double below that number:
  its floor is a position of the array.
\<close>

lemma double_position:
  fixes r :: real
  assumes "0 \<le> r" and "r \<le> 1 - 1 / 2 ^ 53" and "0 < n" and "n < 2 ^ 32"
  shows "0 \<le> \<lfloor>to_double (r * real n)\<rfloor> \<and> \<lfloor>to_double (r * real n)\<rfloor> < int n"
proof -
  define x where "x = r * real n"
  define k where "k = scale_up 1074 x"
  define y where "y = x * 2 ^ k"
  define m where "m = int n * 2 ^ k"
  have n: "0 < real n" "real n < 2 ^ 32" using assms(3,4) by simp_all
  have x0: "0 \<le> x" using assms(1) by (simp add: x_def)
  have xn: "x \<le> real n - real n / 2 ^ 53"
  proof -
    have "r * real n \<le> (1 - 1 / 2 ^ 53) * real n"
      using assms(2) n(1) by (intro mult_right_mono) simp_all
    then show ?thesis by (simp add: x_def algebra_simps)
  qed
  have xlt: "x < real n" using xn n(1) by (simp add: field_simps) 
  have small: "\<not> (2 :: real) ^ 53 \<le> x" using xlt n(2) by simp
  have td: "to_double x = of_int (round_half_even y) / 2 ^ k"
    using x0 small by (simp add: to_double_def nearest_double_def k_def y_def Let_def)
  have y0: "0 \<le> y" using x0 by (simp add: y_def)
  have big: "(2 :: real) ^ 52 < real n * 2 ^ k"
  proof -
    from scale_up_reaches [of x 1074] consider "2 ^ 52 \<le> x * 2 ^ k" | "k = 1074"
      unfolding k_def by blast
    then show ?thesis
    proof cases
      case 1
      have "x * 2 ^ k < real n * 2 ^ k" using xlt by simp
      with 1 show ?thesis by linarith
    next
      case 2
      have "(2 :: real) ^ 52 < 2 ^ 1074" by (rule power_strict_increasing) simp_all
      also have "\<dots> \<le> real n * 2 ^ 1074" using assms(3) by simp
      finally show ?thesis unfolding 2 .
    qed
  qed
  have "y \<le> (real n - real n / 2 ^ 53) * 2 ^ k"
    unfolding y_def using xn by (intro mult_right_mono) simp_all
  also have "\<dots> = real n * 2 ^ k - (real n * 2 ^ k) / 2 ^ 53" by (simp add: algebra_simps)
  also have "\<dots> < real n * 2 ^ k - 1 / 2" using big by simp
  finally have "y < of_int m - 1 / 2" by (simp add: m_def)
  then have "round_half_even y < m" by (rule round_half_even_less)
  then have "(of_int (round_half_even y) :: real) < of_int m" by simp
  then have "of_int (round_half_even y) / 2 ^ k < real n"
    by (simp add: m_def field_simps)
  moreover have "0 \<le> (of_int (round_half_even y) :: real) / 2 ^ k"
    using round_half_even_nonneg [OF y0] by simp
  ultimately show ?thesis
    unfolding x_def [symmetric] td by (simp add: floor_less_iff)
qed

text \<open>
  The rounding decides: with three steps and the draw \<open>6004799503160661 / 2^53\<close>, the
  double just below two thirds, the product of doubles is 2 and position 2 is chosen,
  where the floor of the exact product is 1.
\<close>

lemma double_product_rounds:
  "\<lfloor>to_double (6004799503160661 / 2 ^ 53 * real 3)\<rfloor> = 2 \<and>
   \<lfloor>(6004799503160661 / 2 ^ 53 * real 3 :: real)\<rfloor> = 1"
  by (simp add: to_double_def nearest_double_def scale_up.simps round_half_even_def)

text \<open>Likewise with seven steps and the draw \<open>0.5714285714285714\<close>: position 4, not 3.\<close>

lemma double_product_rounds_7:
  "\<lfloor>to_double (2573485501354569 / 2 ^ 52 * real 7)\<rfloor> = 4 \<and>
   \<lfloor>(2573485501354569 / 2 ^ 52 * real 7 :: real)\<rfloor> = 3"
  by (simp add: to_double_def nearest_double_def scale_up.simps round_half_even_def)

text \<open>
  Claim C6. Whether a run fails, and at which step, is fixed by the two random numbers
  drawn before the loop over the steps starts: the first decides the failure (it is
  below the double \<open>0.2\<close>), the second the step index, the floor of its product, as a
  double, with the number of steps. The announced step transitions are those of
  \<open>expectedUpdates\<close> for that index, so at most one of them is \<open>FAILED\<close>; and a second
  run from the same world under an environment that agrees on these two draws, however
  it differs in every later draw and in its clock, announces the same transitions and
  ends in the same state. With at least one step, and fewer than \<open>2^32\<close> as an array
  has, and a second draw that is a double in \<open>[0, 1)\<close>, so at most \<open>1 - 2^-53\<close>, the run
  fails exactly when the first draw is below \<open>0.2\<close>.
\<close>

theorem failure_decided_once:
  assumes "deploymentPresent (d_id d) w" and "stepsPresent (steps d) w"
    and "steps d \<noteq> []" and "length (steps d) < 2 ^ 32"
    and "0 \<le> rnd e (Suc (random_draws w))" and "rnd e (Suc (random_draws w)) \<le> 1 - 1 / 2 ^ 53"
    and "rnd e' (random_draws w) = rnd e (random_draws w)"
    and "rnd e' (Suc (random_draws w)) = rnd e (Suc (random_draws w))"
  shows "\<exists>w1 w2 evs1 evs2.
           simulateDeployment e d userId w = Inr w1 \<and> emitted w1 = emitted w @ evs1 \<and>
           simulateDeployment e' d userId w = Inr w2 \<and> emitted w2 = emitted w @ evs2 \<and>
           step_updates evs1 =
             expectedUpdates
               (if rnd e (random_draws w) < to_double (2 / 10)
                then \<lfloor>to_double (rnd e (Suc (random_draws w)) * real (length (steps d)))\<rfloor>
                else - 1)
               (steps d) \<and>
           length (filter (\<lambda>p. snd p = FAILED) (step_updates evs1)) \<le> 1 \<and>
           completions evs1 =
             [if rnd e (random_draws w) < to_double (2 / 10) then FAILED else COMPLETED] \<and>
           map_option d_status (deploymentRow w1 (d_id d)) =
             Some (if rnd e (random_draws w) < to_double (2 / 10) then FAILED else COMPLETED) \<and>
           step_updates evs2 = step_updates evs1 \<and>
           completions evs2 = completions evs1 \<and>
           map_option d_status (deploymentRow w2 (d_id d)) =
             map_option d_status (deploymentRow w1 (d_id d))"
proof -
  define fa where "fa = failAtStep_of e d w"
  have fa': "failAtStep_of e' d w = fa"
    unfolding fa_def failAtStep_of_unfold using assms(7,8) by simp
  have fa_eq: "fa = (if rnd e (random_draws w) < to_double (2 / 10)
                then \<lfloor>to_double (rnd e (Suc (random_draws w)) * real (length (steps d)))\<rfloor>
                else - 1)"
    unfolding fa_def by (rule failAtStep_of_unfold)
  from assms(3) have n: "0 < length (steps d)" by simp
  have rng: "(0 \<le> fa \<and> fa < int (length (steps d))) = (rnd e (random_draws w) < to_double (2 / 10))"
    using double_position [OF assms(5,6) n assms(4)] unfolding fa_eq by auto
  from simulateDeployment_returns [OF assms(1,2)] obtain w1
    where w1: "simulateDeployment e d userId w = Inr w1" by blast
  from simulateDeployment_returns [OF assms(1,2)] obtain w2
    where w2: "simulateDeployment e' d userId w = Inr w2" by blast
  let ?s = "(userRoom userId, deployment_status (d_id d) RUNNING ''Deployment started'')"
  from simulateDeployment_events [OF w1] obtain evs1 where evs1:
    "emitted w1 = emitted w @ ?s # evs1"
    "step_updates evs1 = expectedUpdates fa (steps d)"
    "completions evs1 = [if 0 \<le> fa \<and> fa < int (length (steps d)) then FAILED else COMPLETED]"
    unfolding fa_def by blast
  from simulateDeployment_events [OF w2] obtain evs2 where evs2:
    "emitted w2 = emitted w @ ?s # evs2"
    "step_updates evs2 = expectedUpdates fa (steps d)"
    "completions evs2 = [if 0 \<le> fa \<and> fa < int (length (steps d)) then FAILED else COMPLETED]"
    unfolding fa' by blast
  from simulateDeployment_deployment [OF w1] have st1:
    "map_option d_status (deploymentRow w1 (d_id d)) =
       Some (if 0 \<le> fa \<and> fa < int (length (steps d)) then FAILED else COMPLETED)"
    unfolding fa_def [symmetric] by auto
  from simulateDeployment_deployment [OF w2] have st2:
    "map_option d_status (deploymentRow w2 (d_id d)) =
       Some (if 0 \<le> fa \<and> fa < int (length (steps d)) then FAILED else COMPLETED)"
    unfolding fa' by auto
  have a: "step_updates (?s # evs1) = expectedUpdates fa (steps d)" using evs1(2) by simp
  have b: "length (filter (\<lambda>p. snd p = FAILED) (step_updates (?s # evs1))) \<le> 1"
    unfolding a by (rule expectedUpdates_one_failure)
  have c: "completions (?s # evs1) =
      [if rnd e (random_draws w) < to_double (2 / 10) then FAILED else COMPLETED]"
    using evs1(3) unfolding rng by simp
  have d: "step_updates (?s # evs2) = step_updates (?s # evs1)" using evs1(2) evs2(2) by simp
  have e: "completions (?s # evs2) = completions (?s # evs1)" using evs1(3) evs2(3) by simp
  show ?thesis
    using w1 w2 evs1(1) evs2(1) a [unfolded fa_eq] b c st1 [unfolded rng] d e
      st2 [folded st1]
    by blast
qed

theorem failure_decided_once_witness:
  "deploymentPresent (d_id (deployment_ex PENDING)) (world_ex PENDING) \<and>
   stepsPresent (steps (deployment_ex PENDING)) (world_ex PENDING) \<and>
   steps (deployment_ex PENDING) \<noteq> [] \<and>
   length (steps (deployment_ex PENDING)) < 2 ^ 32 \<and>
   0 \<le> rnd env_round (Suc (random_draws (world_ex PENDING))) \<and>
   rnd env_round (Suc (random_draws (world_ex PENDING))) \<le> 1 - 1 / 2 ^ 53 \<and>
   rnd env_late (random_draws (world_ex PENDING)) = rnd env_round (random_draws (world_ex PENDING)) \<and>
   rnd env_late (Suc (random_draws (world_ex PENDING))) =
     rnd env_round (Suc (random_draws (world_ex PENDING))) \<and>
   rnd env_late 2 \<noteq> rnd env_round 2 \<and>
   failAtStep_of env_round (deployment_ex PENDING) (world_ex PENDING) = 2 \<and>
   (\<exists>w1 w2 evs1 evs2.
      simulateDeployment env_round (deployment_ex PENDING) ''u1'' (world_ex PENDING) = Inr w1 \<and>
      emitted w1 = emitted (world_ex PENDING) @ evs1 \<and>
      simulateDeployment env_late (deployment_ex PENDING) ''u1'' (world_ex PENDING) = Inr w2 \<and>
      emitted w2 = emitted (world_ex PENDING) @ evs2 \<and>
      step_updates evs1 =
        expectedUpdates
          (if rnd env_round (random_draws (world_ex PENDING)) < to_double (2 / 10)
           then \<lfloor>to_double (rnd env_round (Suc (random_draws (world_ex PENDING))) *
                  real (length (steps (deployment_ex PENDING))))\<rfloor>
           else - 1)
          (steps (deployment_ex PENDING)) \<and>
      length (filter (\<lambda>p. snd p = FAILED) (step_updates evs1)) \<le> 1 \<and>
      completions evs1 =
        [if rnd env_round (random_draws (world_ex PENDING)) < to_double (2 / 10)
         then FAILED else COMPLETED] \<and>
      map_option d_status (deploymentRow w1 (d_id (deployment_ex PENDING))) =
        Some (if rnd env_round (random_draws (world_ex PENDING)) < to_double (2 / 10)
              then FAILED else COMPLETED) \<and>
      step_updates evs2 = step_updates evs1 \<and>
      completions evs2 = completions evs1 \<and>
      map_option d_status (deploymentRow w2 (d_id (deployment_ex PENDING))) =
        map_option d_status (deploymentRow w1 (d_id (deployment_ex PENDING))))"
proof -
  have h1: "deploymentPresent (d_id (deployment_ex PENDING)) (world_ex PENDING)"
    by (simp add: deploymentPresent_def deployment_ex_def with_steps_def world_ex_def row_ex_def)
  have h2: "stepsPresent (steps (deployment_ex PENDING)) (world_ex PENDING)"
    by (simp add: stepsPresent_def deployment_ex_def with_steps_def world_ex_def steps_ex_def
        step_ex_def)
  have h3: "steps (deployment_ex PENDING) \<noteq> []"
    by (simp add: deployment_ex_def with_steps_def steps_ex_def)
  have h3': "length (steps (deployment_ex PENDING)) < 2 ^ 32"
    by (simp add: deployment_ex_def with_steps_def steps_ex_def)
  have h4: "0 \<le> rnd env_round (Suc (random_draws (world_ex PENDING)))"
    by (simp add: env_round_def world_ex_def)
  have h5: "rnd env_round (Suc (random_draws (world_ex PENDING))) \<le> 1 - 1 / 2 ^ 53"
    by (simp add: env_round_def world_ex_def)
  have h6: "rnd env_late (random_draws (world_ex PENDING)) =
      rnd env_round (random_draws (world_ex PENDING))"
    by (simp add: env_round_def env_late_def world_ex_def)
  have h7: "rnd env_late (Suc (random_draws (world_ex PENDING))) =
     rnd env_round (Suc (random_draws (world_ex PENDING)))"
    by (simp add: env_round_def env_late_def world_ex_def)
  have h8: "rnd env_late 2 \<noteq> rnd env_round 2"
    by (simp add: env_round_def env_late_def)
  have h9: "failAtStep_of env_round (deployment_ex PENDING) (world_ex PENDING) = 2"
    by (simp add: failAtStep_of_def env_round_def shouldFail_def random_def world_ex_def
        drawn_def deployment_ex_def with_steps_def steps_ex_def to_double_def nearest_double_def
        scale_up.simps round_half_even_def)
  show ?thesis
    by (intro conjI h1 h2 h3 h3' h4 h5 h6 h7 h8 h9
        failure_decided_once [OF h1 h2 h3 h3' h4 h5 h6 h7])
qed

section \<open>Duration\<close>

text \<open>
  Claim C9, as amended. For every run over rows of the store, the duration written to
  the deployment row is the span, in whole seconds rounded down, from the clock reading
  taken on entry to \<open>simulateDeployment\<close> to the reading taken while the terminal update
  of the deployment row is put together. The reading on entry comes before the
  deployment is marked running; the start of the first step is the reading after it.
\<close>

theorem duration_from_entry:
  assumes "deploymentPresent (d_id d) w" and "stepsPresent (steps d) w"
    and "distinct (map s_id (steps d))"
  shows "\<exists>w' r. simulateDeployment e d userId w = Inr w' \<and>
           deploymentRow w' (d_id d) = Some r \<and>
           (d_status r = COMPLETED \<or> d_status r = FAILED) \<and>
           clock_reads w < clock_reads w' - 2 \<and>
           d_duration r =
             Some ((clk e (clock_reads w' - 2) - clk e (clock_reads w)) div 1000) \<and>
           map (\<lambda>s. map_option s_startedAt (stepRow w' (s_id s))) (take 1 (steps d)) =
             map (\<lambda>s. Some (Some (clk e (Suc (clock_reads w))))) (take 1 (steps d))"
proof -
  from simulateDeployment_returns [OF assms(1,2)] obtain w'
    where w': "simulateDeployment e d userId w = Inr w'" by blast
  then have loop: "steps_loop e d userId (clk e (clock_reads w)) (failAtStep_of e d w) 0 (steps d)
      (started e d userId w) = Inr w'" by (simp add: simulateDeployment_Inr)
  from simulateDeployment_deployment [OF w'] obtain r where r:
    "deploymentRow w' (d_id d) = Some r" "d_status r = COMPLETED \<or> d_status r = FAILED"
    "clock_reads w < clock_reads w' - 2"
    "d_duration r = Some (seconds_since (clk e (clock_reads w)) (clk e (clock_reads w' - 2)))"
    by (cases "0 \<le> failAtStep_of e d w \<and> failAtStep_of e d w < int (length (steps d))") auto
  have first: "map (\<lambda>s. map_option s_startedAt (stepRow w' (s_id s))) (take 1 (steps d)) =
             map (\<lambda>s. Some (Some (clk e (Suc (clock_reads w))))) (take 1 (steps d))"
  proof (cases "steps d")
    case Nil
    then show ?thesis by simp
  next
    case (Cons s rest)
    with assms(3) have "s_id s \<notin> s_id ` set rest" by simp
    from steps_loop_startedAt [OF loop [unfolded Cons] this] Cons show ?thesis
      by (simp add: started_simps)
  qed
  from w' r first show ?thesis unfolding seconds_since_def by blast
qed

theorem duration_from_entry_witness:
  "deploymentPresent (d_id (deployment_ex PENDING)) (world_ex PENDING) \<and>
   stepsPresent (steps (deployment_ex PENDING)) (world_ex PENDING) \<and>
   distinct (map s_id (steps (deployment_ex PENDING))) \<and>
   (\<exists>w' r. simulateDeployment env_clock (deployment_ex PENDING) ''u1'' (world_ex PENDING) = Inr w' \<and>
      deploymentRow w' (d_id (deployment_ex PENDING)) = Some r \<and>
      (d_status r = COMPLETED \<or> d_status r = FAILED) \<and>
      clock_reads (world_ex PENDING) < clock_reads w' - 2 \<and>
      d_duration r =
        Some ((clk env_clock (clock_reads w' - 2) - clk env_clock (clock_reads (world_ex PENDING)))
              div 1000) \<and>
      map (\<lambda>s. map_option s_startedAt (stepRow w' (s_id s))) (take 1 (steps (deployment_ex PENDING))) =
        map (\<lambda>s. Some (Some (clk env_clock (Suc (clock_reads (world_ex PENDING))))))
          (take 1 (steps (deployment_ex PENDING))))"
proof -
  have h1: "deploymentPresent (d_id (deployment_ex PENDING)) (world_ex PENDING)"
    by (simp add: deploymentPresent_def deployment_ex_def with_steps_def world_ex_def row_ex_def)
  have h2: "stepsPresent (steps (deployment_ex PENDING)) (world_ex PENDING)"
    by (simp add: stepsPresent_def deployment_ex_def with_steps_def world_ex_def steps_ex_def
        step_ex_def)
  have h3: "distinct (map s_id (steps (deployment_ex PENDING)))"
    by (simp add: deployment_ex_def with_steps_def steps_ex_def step_ex_def)
  show ?thesis
    by (intro conjI h1 h2 h3 duration_from_entry [OF h1 h2 h3])
qed



text \<open>
  Claim C9 as stated fails. In the run below the entry is at 0 ms, the first step starts
  at 5 ms and the terminal update is put together at 41002 ms: the stored duration is
  41 s, while from the start of the first step to the terminal transition less than 41 s
  passed.
\<close>

theorem duration_counterexample:
  "map_option d_status
     (deploymentRow (world_of (simulateDeployment env_clock (deployment_ex PENDING) ''u1''
        (world_ex PENDING))) ''d1'') = Some COMPLETED \<and>
   map_option d_duration
     (deploymentRow (world_of (simulateDeployment env_clock (deployment_ex PENDING) ''u1''
        (world_ex PENDING))) ''d1'') = Some (Some 41) \<and>
   map_option d_completedAt
     (deploymentRow (world_of (simulateDeployment env_clock (deployment_ex PENDING) ''u1''
        (world_ex PENDING))) ''d1'') = Some (Some 41002) \<and>
   map_option s_startedAt
     (stepRow (world_of (simulateDeployment env_clock (deployment_ex PENDING) ''u1''
        (world_ex PENDING))) ''s0'') = Some (Some 5) \<and>
   seconds_since 5 41002 = 40"
  by (simp add: run_defs env_clock_def)


section \<open>The start handler\<close>

lemma with_steps_simps [simp]:
  "d_id (with_steps r xs) = d_id r"
  "d_userId (with_steps r xs) = d_userId r"
  "d_modpackUrl (with_steps r xs) = d_modpackUrl r"
  "d_status (with_steps r xs) = d_status r"
  "steps (with_steps r xs) = xs"
  by (simp_all add: with_steps_def)



lemma start_deployment_found:
  "start_deployment e sid u i w = start_found e sid u (findFirst_deployment i u w) w"
  by (simp add: start_deployment_def start_found_def)

lemma findFirst_where_Str: "findFirst_where (Str i) u w = findFirst_deployment i u w"
  by (simp add: findFirst_where_def findFirst_deployment_def)

text \<open>
  What the handler does with the other payloads: an event without payload is answered
  with \<open>Failed to start deployment\<close>, and one whose payload names no deployment starts
  the first deployment of the user.
\<close>

lemma start_without_payload:
  "on_start_deployment e sid userId NoData w =
     w\<lparr>emitted := emitted w @ [(Socket sid, deployment_error ''Failed to start deployment'')]\<rparr>"
  by (simp add: emit_def)

lemma start_without_identifier:
  "map_option d_status
     (deploymentRow (on_start_deployment env_ok ''k1'' ''u1'' (Data Absent) (world_ex PENDING)) ''d1'') =
     Some COMPLETED"
  by (simp add: run_defs env_ok_def start_found_def findFirst_where_def stepsOf_def)




text \<open>
  Claim C7, as amended. A start signal for a deployment owned by another user is
  rejected: the store is left as it was (so a pending deployment stays pending), nothing
  is broadcast to any room, neither the clock nor the random source is read, and the
  only event is the reply \<open>deployment-error\<close> with \<open>Deployment not found\<close> on the requesting
  socket.
\<close>

theorem foreign_start_rejected:
  assumes "find (\<lambda>r. d_id r = deploymentId) (db_deployment w) = Some r"
    and "d_userId r \<noteq> userId"
    and "distinct (map d_id (db_deployment w))"
  shows "start_deployment e sid userId deploymentId w =
           w\<lparr>emitted := emitted w @ [(Socket sid, deployment_error ''Deployment not found'')]\<rparr> \<and>
         db_deployment (start_deployment e sid userId deploymentId w) = db_deployment w \<and>
         db_deploymentStep (start_deployment e sid userId deploymentId w) = db_deploymentStep w \<and>
         deploymentRow (start_deployment e sid userId deploymentId w) deploymentId = Some r \<and>
         step_updates (emitted (start_deployment e sid userId deploymentId w)) =
           step_updates (emitted w) \<and>
         completions (emitted (start_deployment e sid userId deploymentId w)) =
           completions (emitted w)"
proof -
  from assms(1) have r: "r \<in> set (db_deployment w)" "d_id r = deploymentId"
    by (auto simp: find_Some_iff)
  have "find (\<lambda>r. d_id r = deploymentId \<and> d_userId r = userId) (db_deployment w) = None"
  proof (rule ccontr)
    assume "find (\<lambda>r. d_id r = deploymentId \<and> d_userId r = userId) (db_deployment w) \<noteq> None"
    then obtain x where x: "x \<in> set (db_deployment w)" "d_id x = deploymentId" "d_userId x = userId"
      by (auto simp: find_None_iff)
    from assms(3) have "inj_on d_id (set (db_deployment w))" by (simp add: distinct_map)
    with r x have "x = r" by (auto dest: inj_onD)
    with x(3) assms(2) show False by simp
  qed
  then have "start_deployment e sid userId deploymentId w =
           w\<lparr>emitted := emitted w @ [(Socket sid, deployment_error ''Deployment not found'')]\<rparr>"
    by (simp add: start_deployment_def findFirst_deployment_def emit_def)
  with assms(1) show ?thesis by (simp add: deploymentRow_def)
qed

theorem foreign_start_rejected_witness:
  "find (\<lambda>r. d_id r = ''d1'') (db_deployment (world_ex PENDING)) = Some (row_ex PENDING) \<and>
   d_userId (row_ex PENDING) \<noteq> ''u2'' \<and>
   distinct (map d_id (db_deployment (world_ex PENDING))) \<and>
   start_deployment env_ok ''k2'' ''u2'' ''d1'' (world_ex PENDING) =
     (world_ex PENDING)\<lparr>emitted := emitted (world_ex PENDING) @
        [(Socket ''k2'', deployment_error ''Deployment not found'')]\<rparr> \<and>
   db_deployment (start_deployment env_ok ''k2'' ''u2'' ''d1'' (world_ex PENDING)) =
     db_deployment (world_ex PENDING) \<and>
   db_deploymentStep (start_deployment env_ok ''k2'' ''u2'' ''d1'' (world_ex PENDING)) =
     db_deploymentStep (world_ex PENDING) \<and>
   deploymentRow (start_deployment env_ok ''k2'' ''u2'' ''d1'' (world_ex PENDING)) ''d1'' =
     Some (row_ex PENDING) \<and>
   step_updates (emitted (start_deployment env_ok ''k2'' ''u2'' ''d1'' (world_ex PENDING))) =
     step_updates (emitted (world_ex PENDING)) \<and>
   completions (emitted (start_deployment env_ok ''k2'' ''u2'' ''d1'' (world_ex PENDING))) =
     completions (emitted (world_ex PENDING))"
proof -
  have h1: "find (\<lambda>r. d_id r = ''d1'') (db_deployment (world_ex PENDING)) = Some (row_ex PENDING)"
    by (simp add: world_ex_def row_ex_def)
  have h2: "d_userId (row_ex PENDING) \<noteq> ''u2''" by (simp add: row_ex_def)
  have h3: "distinct (map d_id (db_deployment (world_ex PENDING)))" by (simp add: world_ex_def)
  from foreign_start_rejected [OF h1 h2 h3, of env_ok "''k2''"] h1 h2 h3
  show ?thesis by (intro conjI) (erule conjE | assumption)+
qed

text \<open>
  Claim C7 as stated fails on its last part: an event is emitted, the error reply on
  the requesting socket.
\<close>

theorem foreign_start_counterexample:
  "emitted (world_ex PENDING) = [] \<and>
   emitted (start_deployment env_ok ''k2'' ''u2'' ''d1'' (world_ex PENDING)) =
     [(Socket ''k2'', deployment_error ''Deployment not found'')]"
  by (simp add: world_ex_def row_ex_def start_deployment_def findFirst_deployment_def emit_def)


section \<open>Runs among others\<close>

lemma keys_simps [simp]:
  "keys (tick w) = keys w" "keys (drawn w) = keys w" "keys (emit c ev w) = keys w"
  by (simp_all add: keys_def tick_def drawn_def emit_def)

lemma keys_deployment_update:
  assumes "\<And>r. d_id (f r) = d_id r"
  shows "keys (world_of (deployment_update i f w)) = keys w"
  using assms by (simp add: keys_def deployment_update_def world_of_def if_distrib [where f = d_id] cong: if_cong)

lemma keys_deploymentStep_update:
  assumes "\<And>r. s_id (f r) = s_id r" and "\<And>r. s_deploymentId (f r) = s_deploymentId r"
  shows "keys (world_of (deploymentStep_update i f w)) = keys w"
  using assms
  by (simp add: keys_def deploymentStep_update_def world_of_def if_distrib [where f = s_id]
      if_distrib [where f = s_deploymentId] cong: if_cong)

lemma rowsPresent_keys: "keys w' = keys w \<Longrightarrow> rowsPresent d w' = rowsPresent d w"
proof -
  assume k: "keys w' = keys w"
  have a: "deploymentPresent i w' = deploymentPresent i w" for i
    using k by (simp add: deploymentPresent_def list_ex_key keys_def)
  have b: "list_ex (\<lambda>r. s_id r = x \<and> s_deploymentId r = y) (db_deploymentStep v) \<longleftrightarrow>
           (x, y) \<in> set (map (\<lambda>s. (s_id s, s_deploymentId s)) (db_deploymentStep v))" for x y v
    by (auto simp: list_ex_iff)
  show ?thesis unfolding rowsPresent_def a b using k by (simp add: keys_def)
qed

lemma keys_upd [simp]:
  "keys (w\<lparr>db_deployment := map (\<lambda>r. if d_id r = i then r\<lparr>d_status := st\<rparr> else r) (db_deployment w)\<rparr>) = keys w"
  "keys (w\<lparr>db_deployment := map (\<lambda>r. if d_id r = i then r\<lparr>d_status := st, d_completedAt := c, d_duration := du\<rparr> else r) (db_deployment w)\<rparr>) = keys w"
  "keys (w\<lparr>db_deployment := map (\<lambda>r. if d_id r = i then r\<lparr>d_status := st, d_completedAt := c, d_duration := du, d_errorMsg := m\<rparr> else r) (db_deployment w)\<rparr>) = keys w"
  "keys (w\<lparr>db_deploymentStep := map (\<lambda>r. if s_id r = j then r\<lparr>s_status := st, s_startedAt := t\<rparr> else r) (db_deploymentStep w)\<rparr>) = keys w"
  "keys (w\<lparr>db_deploymentStep := map (\<lambda>r. if s_id r = j then r\<lparr>s_status := st, s_completedAt := t, s_logs := l\<rparr> else r) (db_deploymentStep w)\<rparr>) = keys w"
  by (simp_all add: keys_def if_distrib [where f = d_id] if_distrib [where f = s_id]
      if_distrib [where f = s_deploymentId] if_distrib [where f = "\<lambda>s. (s_id s, s_deploymentId s)"] cong: if_cong)

lemma resume_keys: "keys (snd (resume e sid u p w)) = keys w"
  by (cases p)
     (auto simp: failed_def loop_head_def Let_def deployment_update_Inr deployment_update_Inl
        deploymentStep_update_Inr deploymentStep_update_Inl
        split: sum.splits prod.splits option.splits)

lemma resume_rowsPresent: "rowsPresent d w \<Longrightarrow> rowsPresent d (snd (resume e sid u p w))"
  using rowsPresent_keys [OF resume_keys] by simp

lemma deployment_update_present:
  "i \<in> set (map d_id (db_deployment w)) \<Longrightarrow>
   deployment_update i f w =
     Inr (w\<lparr>db_deployment := map (\<lambda>r. if d_id r = i then f r else r) (db_deployment w)\<rparr>)"
  by (simp add: deployment_update_Inr)

lemma deploymentStep_update_present:
  "i \<in> set (map s_id (db_deploymentStep w)) \<Longrightarrow>
   deploymentStep_update i f w =
     Inr (w\<lparr>db_deploymentStep := map (\<lambda>r. if s_id r = i then f r else r) (db_deploymentStep w)\<rparr>)"
  by (simp add: deploymentStep_update_Inr)

lemma rowsPresent_deployment:
  "rowsPresent d w \<Longrightarrow> d_id d \<in> set (map d_id (db_deployment w))"
  by (simp add: rowsPresent_def deploymentPresent_def list_ex_key)

lemma rowsPresent_step:
  assumes "rowsPresent d w" and "i < length (steps d)"
  shows "s_id (steps d ! i) \<in> set (map s_id (db_deploymentStep w))"
proof -
  from assms have "list_ex (\<lambda>r. s_id r = s_id (steps d ! i) \<and> s_deploymentId r = d_id d)
      (db_deploymentStep w)"
    by (simp add: rowsPresent_def list_all_length)
  then obtain r where "r \<in> set (db_deploymentStep w)" "s_id r = s_id (steps d ! i)"
    by (auto simp: list_ex_iff)
  then show ?thesis by (metis imageI list.set_map)
qed

lemma begun_append:
  assumes "begun u d sent" and "errors evs = []" and "list_all (\<lambda>ce. fst ce = userRoom u) evs"
  shows "begun u d (sent @ evs)"
proof -
  from assms(1) obtain x xs where "sent = x # xs" by (cases sent) (auto simp: begun_def)
  with assms show ?thesis by (auto simp: begun_def)
qed

lemma ranToCompletion_take_Suc:
  "i < length ss \<Longrightarrow>
   ranToCompletion (take (Suc i) ss) =
     ranToCompletion (take i ss) @ [(s_id (ss ! i), RUNNING), (s_id (ss ! i), COMPLETED)]"
  by (simp add: take_Suc_conv_app_nth ranToCompletion_def)

lemma emitted_tick [simp]: "emitted (tick w) = emitted w"
  by (simp add: tick_def)

lemma emitted_emit [simp]: "emitted (emit c ev w) = emitted w @ [(c, ev)]"
  by (simp add: emit_def)

lemma loop_head_sent:
  assumes "begun u d sent" and "completions sent = []"
    and "step_updates sent = ranToCompletion (take i (steps d))" and "i \<le> length (steps d)"
    and "loop_head e d t0 fa i w = (p', w')"
  shows "sent_so_far u d p' (sent @ drop (length (emitted w)) (emitted w'))"
proof (cases "i < length (steps d)")
  case True
  with assms(5) have "p' = MarkStepRunning d t0 fa i (now e w)" "w' = tick w"
    by (simp_all add: loop_head_def)
  with True assms(1-3) show ?thesis by simp
next
  case False
  with assms(4) have i: "i = length (steps d)" by simp
  from False assms(5) have "p' = MarkCompleted d (seconds_since t0 (now e w)) (now e (tick w))"
    "w' = tick (tick w)"
    by (simp_all add: loop_head_def)
  with assms(1-3) i show ?thesis by simp
qed

lemma loop_head_emitted: "emitted (snd (loop_head e d t0 fa i w)) = emitted w"
  by (simp add: loop_head_def)

lemma resume_sent_so_far:
  assumes "sent_so_far u d p sent" and "rowsPresent d w" and "resume e sid u p w = (p', w')"
  shows "sent_so_far u d p' (sent @ drop (length (emitted w)) (emitted w'))"
proof (cases p)
  case (FindFirst f)
  with assms(1) show ?thesis by simp
next
  case (MarkRunning d' t0)
  with assms(1) have d': "d' = d" and sent: "sent = []" by simp_all
  note up = deployment_update_present [OF rowsPresent_deployment [OF assms(2)]]
  define w2 where "w2 = emit (userRoom u) (deployment_status (d_id d) RUNNING ''Deployment started'')
      (w\<lparr>db_deployment := map (\<lambda>r. if d_id r = d_id d then r\<lparr>d_status := RUNNING\<rparr> else r)
          (db_deployment w)\<rparr>)"
  define w3 where "w3 = (if shouldFail e w2 then drawn (drawn w2) else drawn w2)"
  have lh: "loop_head e d t0 (failAtStep_of e d w2) 0 w3 = (p', w')"
    using assms(3) unfolding MarkRunning d' resume.simps up sum.case Let_def w2_def w3_def .
  have e3: "emitted w3 =
      emitted w @ [(userRoom u, deployment_status (d_id d) RUNNING ''Deployment started'')]"
    by (simp add: w3_def w2_def)
  let ?s = "[(userRoom u, deployment_status (d_id d) RUNNING ''Deployment started'')]"
  have b: "begun u d ?s" by (simp add: begun_def)
  have "sent_so_far u d p' (?s @ drop (length (emitted w3)) (emitted w'))"
    using b _ _ _ lh by (rule loop_head_sent) (simp_all add: ranToCompletion_def)
  moreover have "emitted w' = emitted w3" using loop_head_emitted [of e d t0 "failAtStep_of e d w2" 0 w3] lh by simp
  ultimately show ?thesis unfolding sent by (simp add: e3)
next
  case (MarkStepRunning d' t0 fa i t)
  with assms(1) have d': "d' = d" and i: "i < length (steps d)" and b: "begun u d sent"
    and c: "completions sent = []"
    and su: "step_updates sent = ranToCompletion (take i (steps d))" by simp_all
  note up = deploymentStep_update_present [OF rowsPresent_step [OF assms(2) i]]
  from assms(3) have "p' = Timer d t0 fa i (actualDuration_of e d i
      (emit (userRoom u) (step_update (d_id d) (s_id (steps d ! i)) RUNNING
          (''Started: '' @ s_name (steps d ! i)) None)
        (w\<lparr>db_deploymentStep := map (\<lambda>r. if s_id r = s_id (steps d ! i)
            then r\<lparr>s_status := RUNNING, s_startedAt := Some t\<rparr> else r) (db_deploymentStep w)\<rparr>)))"
    and "emitted w' = emitted w @ [(userRoom u, step_update (d_id d) (s_id (steps d ! i)) RUNNING
          (''Started: '' @ s_name (steps d ! i)) None)]"
    unfolding MarkStepRunning d' by (auto simp: up Let_def)
  with i b c su show ?thesis by (simp add: begun_append)
next
  case (Timer d' t0 fa i a)
  with assms(1,3) show ?thesis by (auto split: if_splits)
next
  case (MarkStepFailed d' t0 i t)
  with assms(1) have d': "d' = d" and i: "i < length (steps d)" by simp_all
  note up = deploymentStep_update_present [OF rowsPresent_step [OF assms(2) i]]
  from assms(3) have "\<exists>c du. p' = MarkFailed d t0 i c du" "emitted w' = emitted w"
    unfolding MarkStepFailed d' by (auto simp: up Let_def)
  with assms(1) MarkStepFailed show ?thesis by auto
next
  case (MarkFailed d' t0 i t du)
  with assms(1) have d': "d' = d" and i: "i < length (steps d)" and b: "begun u d sent"
    and c: "completions sent = []"
    and su: "step_updates sent =
        ranToCompletion (take i (steps d)) @ [(s_id (steps d ! i), RUNNING)]" by simp_all
  note up = deployment_update_present [OF rowsPresent_deployment [OF assms(2)]]
  from assms(3) obtain n where "p' = Done"
    and em: "emitted w' = emitted w @
       [(userRoom u, step_update (d_id d) (s_id (steps d ! i)) FAILED
            (''Failed: '' @ s_name (steps d ! i)) (Some ''Connection timeout - please try again'')),
        (userRoom u, deployment_complete (d_id d) FAILED ''Deployment failed'' n None)]"
    unfolding MarkFailed d' by (auto simp: up Let_def)
  have in': "0 \<le> int i \<and> int i < int (length (steps d))" using i by simp
  have "step_updates (sent @ drop (length (emitted w)) (emitted w')) =
      expectedUpdates (int i) (steps d)"
    unfolding expectedUpdates_in [OF in'] em using su by simp
  then have "\<exists>fa. step_updates (sent @ drop (length (emitted w)) (emitted w')) =
      expectedUpdates fa (steps d)" by blast
  moreover have "begun u d (sent @ drop (length (emitted w)) (emitted w'))"
    unfolding em using b by (simp add: begun_append)
  moreover have "length (completions (sent @ drop (length (emitted w)) (emitted w'))) = 1"
    unfolding em using c by simp
  ultimately show ?thesis using \<open>p' = Done\<close> by simp
next
  case (MarkStepCompleted d' t0 fa i t a)
  with assms(1) have d': "d' = d" and i: "i < length (steps d)" and b: "begun u d sent"
    and c: "completions sent = []"
    and su: "step_updates sent =
        ranToCompletion (take i (steps d)) @ [(s_id (steps d ! i), RUNNING)]" by simp_all
  note up = deploymentStep_update_present [OF rowsPresent_step [OF assms(2) i]]
  define w1 where "w1 = emit (userRoom u)
      (step_update (d_id d) (s_id (steps d ! i)) COMPLETED (''Completed: '' @ s_name (steps d ! i)) None)
      (w\<lparr>db_deploymentStep := map (\<lambda>r. if s_id r = s_id (steps d ! i)
            then r\<lparr>s_status := COMPLETED, s_completedAt := Some t,
                   s_logs := Some (successLogs (steps d ! i) a)\<rparr> else r) (db_deploymentStep w)\<rparr>)"
  have lh: "loop_head e d t0 fa (Suc i) w1 = (p', w')"
    using assms(3) unfolding MarkStepCompleted d' by (simp add: up Let_def w1_def)
  let ?ev = "[(userRoom u, step_update (d_id d) (s_id (steps d ! i)) COMPLETED
      (''Completed: '' @ s_name (steps d ! i)) None)]"
  have e1: "emitted w1 = emitted w @ ?ev" by (simp add: w1_def)
  have b1: "begun u d (sent @ ?ev)" using b by (simp add: begun_append)
  have c1: "completions (sent @ ?ev) = []" using c by simp
  have su1: "step_updates (sent @ ?ev) = ranToCompletion (take (Suc i) (steps d))"
    unfolding ranToCompletion_take_Suc [OF i] using su by simp
  have "sent_so_far u d p' ((sent @ ?ev) @ drop (length (emitted w1)) (emitted w'))"
    using b1 c1 su1 _ lh by (rule loop_head_sent) (use i in simp)
  moreover have "emitted w' = emitted w1" using loop_head_emitted [of e d t0 fa "Suc i" w1] lh by simp
  ultimately show ?thesis by (simp add: e1)
next
  case (MarkCompleted d' total t)
  with assms(1) have d': "d' = d" and b: "begun u d sent" and c: "completions sent = []"
    and su: "step_updates sent = ranToCompletion (steps d)" by simp_all
  note up = deployment_update_present [OF rowsPresent_deployment [OF assms(2)]]
  from assms(3) obtain n x where "p' = Done"
    and em: "emitted w' = emitted w @
       [(userRoom u, deployment_complete (d_id d) COMPLETED ''Deployment completed successfully!'' n x)]"
    unfolding MarkCompleted d' by (auto simp: up Let_def)
  have out: "\<not> (0 \<le> (- 1 :: int) \<and> - 1 < int (length (steps d)))" by simp
  have "step_updates (sent @ drop (length (emitted w)) (emitted w')) = expectedUpdates (- 1) (steps d)"
    unfolding expectedUpdates_out [OF out] em using su by simp
  then have "\<exists>fa. step_updates (sent @ drop (length (emitted w)) (emitted w')) =
      expectedUpdates fa (steps d)" by blast
  moreover have "begun u d (sent @ drop (length (emitted w)) (emitted w'))"
    unfolding em using b by (simp add: begun_append)
  moreover have "length (completions (sent @ drop (length (emitted w)) (emitted w'))) = 1"
    unfolding em using c by simp
  ultimately show ?thesis using \<open>p' = Done\<close> by simp
next
  case Done
  with assms(1,3) show ?thesis by auto
qed

lemma resume_todo:
  assumes "sent_so_far u d p sent" and "p \<noteq> Done"
  shows "todo (fst (resume e sid u p w)) < todo p"
  using assms
  by (cases p)
     (auto simp: failed_def loop_head_def Let_def split: sum.splits prod.splits option.splits)

lemma todo_0: "sent_so_far u d p sent \<Longrightarrow> todo p = 0 \<Longrightarrow> p = Done"
  by (cases p) auto

lemma run_finishes:
  assumes "sent_so_far u d p sent" and "rowsPresent d w"
    and "list_all (rowsPresent d) (interferences ms)" and "todo p \<le> resumes ms"
  shows "\<exists>w' sent'. run e sid u ms p w sent = (Done, w', sent') \<and> sent_so_far u d Done sent'"
  using assms
proof (induction ms arbitrary: p w sent)
  case Nil
  then have "p = Done" using todo_0 by simp
  with Nil show ?case by simp
next
  case (Cons m ms)
  show ?case
  proof (cases m)
    case Resume
    obtain p' w' where r: "resume e sid u p w = (p', w')" by (cases "resume e sid u p w")
    have s': "sent_so_far u d p' (sent @ drop (length (emitted w)) (emitted w'))"
      using Cons.prems(1,2) r by (rule resume_sent_so_far)
    have rp: "rowsPresent d w'" using resume_rowsPresent [OF Cons.prems(2), of e sid u p] r by simp
    have t: "todo p' \<le> resumes ms"
    proof (cases "p = Done")
      case True
      with r show ?thesis by simp
    next
      case False
      from resume_todo [OF Cons.prems(1) False, of e sid w] r have "todo p' < todo p" by simp
      with Cons.prems(4) Resume show ?thesis by simp
    qed
    from Cons.IH [OF s' rp _ t] Cons.prems(3) Resume r show ?thesis by simp
  next
    case (Interfere v)
    with Cons.prems(3) have rp: "rowsPresent d v" and rest: "list_all (rowsPresent d) (interferences ms)"
      by simp_all
    from Cons.prems(4) Interfere have t: "todo p \<le> resumes ms" by simp
    from Cons.IH [OF Cons.prems(1) rp rest t] Interfere show ?thesis by simp
  qed
qed

lemma stepsOf_sorted: "sorted (map s_order (stepsOf i w))"
  by (simp add: stepsOf_def)

lemma stepsOf_distinct:
  assumes "distinct (map s_id (db_deploymentStep w))"
  shows "distinct (map s_id (stepsOf i w))"
proof -
  from assms have "distinct (db_deploymentStep w)" "inj_on s_id (set (db_deploymentStep w))"
    by (simp_all add: distinct_map)
  then have "distinct (stepsOf i w)" "inj_on s_id (set (stepsOf i w))"
    by (auto simp: stepsOf_def intro: inj_on_subset)
  then show ?thesis by (simp add: distinct_map)
qed

lemma rowsPresent_fetched:
  assumes "find (\<lambda>r. selects f (d_id r) \<and> d_userId r = u) (db_deployment w) = Some r"
  shows "rowsPresent (with_steps r (stepsOf (d_id r) w)) w"
proof -
  from assms have "r \<in> set (db_deployment w)" by (auto simp: find_Some_iff)
  then have p: "deploymentPresent (d_id r) w"
    unfolding deploymentPresent_def list_ex_iff by blast
  have "list_ex (\<lambda>x. s_id x = s_id s \<and> s_deploymentId x = d_id r) (db_deploymentStep w)"
    if "s \<in> set (stepsOf (d_id r) w)" for s
    using that by (auto simp: stepsOf_def list_ex_iff)
  then show ?thesis using p by (simp add: rowsPresent_def list_all_iff)
qed

lemma find_selects:
  assumes "find (\<lambda>r. selects f (d_id r) \<and> d_userId r = u) (db_deployment w) = Some r"
  shows "f \<noteq> Invalid" and "f = Str i \<Longrightarrow> d_id r = i"
  using assms by (auto simp: find_Some_iff)

lemma rowsPresent_tick [simp]: "rowsPresent d (tick w) = rowsPresent d w"
  by (rule rowsPresent_keys) simp

text \<open>
  A run of the start handler on a deployment of the requesting user, followed from its
  query on through any sequence of moves in which the rows of the run stay in the store
  and the run is resumed often enough to return: it returns, and it has sent its events
  in the order of the steps.
\<close>

lemma run_order:
  assumes "find (\<lambda>r. selects f (d_id r) \<and> d_userId r = userId) (db_deployment w) = Some r"
    and "distinct (map s_id (db_deploymentStep w))"
    and "list_all (rowsPresent (with_steps r (stepsOf (d_id r) w))) (interferences ms)"
    and "3 * length (stepsOf (d_id r) w) + 2 \<le> resumes ms"
  shows "\<exists>w' sent fa.
           run e sid userId (Resume # ms) (FindFirst f) w [] = (Done, w', sent) \<and>
           take 1 sent =
             [(userRoom userId, deployment_status (d_id r) RUNNING ''Deployment started'')] \<and>
           step_updates sent = expectedUpdates fa (stepsOf (d_id r) w) \<and>
           sorted (map s_order (stepsOf (d_id r) w)) \<and>
           sorted (map (\<lambda>p. orderIndex (with_steps r (stepsOf (d_id r) w)) (fst p))
                     (step_updates sent)) \<and>
           length (completions sent) = 1 \<and> errors sent = [] \<and>
           list_all (\<lambda>ce. fst ce = userRoom userId) sent"
proof -
  define d where "d = with_steps r (stepsOf (d_id r) w)"
  have st: "steps d = stepsOf (d_id r) w" and di: "d_id d = d_id r"
    by (simp_all add: d_def)
  have r1: "resume e sid userId (FindFirst f) w = (MarkRunning d (now e w), tick w)"
    using assms(1) find_selects(1) [OF assms(1)] by (simp add: findFirst_where_def d_def)
  have s0: "sent_so_far userId d (MarkRunning d (now e w)) []" by simp
  have rp: "rowsPresent d (tick w)" using rowsPresent_fetched [OF assms(1)] by (simp add: d_def)
  have t: "todo (MarkRunning d (now e w)) \<le> resumes ms" using assms(4) by (simp add: st)
  from run_finishes [OF s0 rp assms(3) [folded d_def] t, of e sid] obtain w' sent
    where fin: "run e sid userId ms (MarkRunning d (now e w)) (tick w) [] = (Done, w', sent)"
      and s: "sent_so_far userId d Done sent" by blast
  from s obtain fa where fa: "step_updates sent = expectedUpdates fa (steps d)"
    and b: "begun userId d sent" and c: "length (completions sent) = 1" by auto
  have so: "sorted (map s_order (steps d))" unfolding st by (rule stepsOf_sorted)
  have dist: "distinct (map s_id (steps d))" unfolding st using assms(2) by (rule stepsOf_distinct)
  have srt: "sorted (map (\<lambda>p. orderIndex d (fst p)) (step_updates sent))"
    unfolding fa using dist so by (rule expectedUpdates_sorted)
  have run1: "run e sid userId (Resume # ms) (FindFirst f) w [] = (Done, w', sent)"
    using fin by (simp add: r1 del: resume.simps)
  from b have b': "take 1 sent =
      [(userRoom userId, deployment_status (d_id r) RUNNING ''Deployment started'')]"
    "errors sent = []" "list_all (\<lambda>ce. fst ce = userRoom userId) sent"
    by (simp_all add: begun_def di)
  show ?thesis
    using run1 b' fa [unfolded st] so [unfolded st] srt [unfolded d_def] c by blast
qed

section \<open>A run without interruption\<close>

lemma run_Done: "run e sid u (replicate n Resume) Done w sent = (Done, w, sent)"
  by (induction n) simp_all

lemma run_step:
  "resume e sid u p w = (p', w') \<Longrightarrow>
   run e sid u (replicate (Suc n) Resume) p w sent =
     run e sid u (replicate n Resume) p' w' (sent @ drop (length (emitted w)) (emitted w'))"
  by (simp del: resume.simps)

lemma run_step_Done:
  "resume e sid u p w = (Done, w') \<Longrightarrow>
   \<exists>sent'. run e sid u (replicate (Suc n) Resume) p w sent = (Done, w', sent')"
  by (simp add: run_step run_Done del: resume.simps replicate.simps)

lemma solo_loop:
  assumes "drop i (steps d) = rest"
  shows "\<exists>n sent'.
           run e sid u (replicate n Resume) (fst (loop_head e d t0 fa i w))
             (snd (loop_head e d t0 fa i w)) sent =
           (Done,
            (case steps_loop e d u t0 fa i rest w of
               Inl (x, w') \<Rightarrow> emit (Socket sid) (deployment_error ''Failed to start deployment'') w'
             | Inr w' \<Rightarrow> w'),
            sent')"
  using assms
proof (induction rest arbitrary: i w sent)
  case Nil
  then have lh: "loop_head e d t0 fa i w =
      (MarkCompleted d (seconds_since t0 (now e w)) (now e (tick w)), tick (tick w))"
    by (simp add: loop_head_def)
  define W where "W = (case finish_deployment e d u t0 w of
               Inl (x, w') \<Rightarrow> emit (Socket sid) (deployment_error ''Failed to start deployment'') w'
             | Inr w' \<Rightarrow> w')"
  have "resume e sid u (MarkCompleted d (seconds_since t0 (now e w)) (now e (tick w)))
          (tick (tick w)) = (Done, W)"
    by (auto simp: W_def finish_deployment_def Let_def failed_def split: sum.splits)
  from run_step_Done [OF this, of 0 sent] show ?case
    unfolding lh fst_conv snd_conv steps_loop.simps W_def by blast
next
  case (Cons s rest)
  then have i: "i < length (steps d)" by (metis drop_all list.distinct(1) not_le)
  from Cons.prems i have s: "steps d ! i = s" and rest: "drop (Suc i) (steps d) = rest"
    by (simp_all add: Cons_nth_drop_Suc [symmetric])
  have lh: "loop_head e d t0 fa i w = (MarkStepRunning d t0 fa i (now e w), tick w)"
    using i by (simp add: loop_head_def)
  let ?fail = "\<lambda>w'. emit (Socket sid) (deployment_error ''Failed to start deployment'') w'"
  show ?case
  proof (cases "start_step e d u s w")
    case (Inl x)
    obtain err w' where x: "x = (err, w')" by (cases x)
    have "resume e sid u (MarkStepRunning d t0 fa i (now e w)) (tick w) = (Done, ?fail w')"
      using Inl x by (auto simp: start_step_def s Let_def failed_def split: sum.splits)
    from run_step_Done [OF this, of 0 sent] obtain sent' where
      "run e sid u (replicate (Suc 0) Resume) (MarkStepRunning d t0 fa i (now e w)) (tick w) sent =
         (Done, ?fail w', sent')" by blast
    moreover have "(case steps_loop e d u t0 fa i (s # rest) w of
               Inl (x, w') \<Rightarrow> ?fail w' | Inr w' \<Rightarrow> w') = ?fail w'"
      using Inl x by simp
    ultimately show ?thesis unfolding lh fst_conv snd_conv by metis
  next
    case (Inr w1)
    define a where "a = actualDuration_of e d i w1"
    have r1: "resume e sid u (MarkStepRunning d t0 fa i (now e w)) (tick w) =
        (Timer d t0 fa i a, drawn w1)"
      using Inr by (auto simp: start_step_def s Let_def a_def split: sum.splits)
    show ?thesis
    proof (cases "int i = fa")
      case True
      have r2: "resume e sid u (Timer d t0 fa i a) (drawn w1) =
          (MarkStepFailed d t0 i (now e (drawn w1)), tick (drawn w1))"
        using True by simp
      have sl: "steps_loop e d u t0 fa i (s # rest) w = fail_step e d u t0 s (drawn w1)"
        using Inr True by (simp add: Let_def)
      show ?thesis
      proof (cases "deploymentStep_update (s_id s)
             (\<lambda>r. r\<lparr>s_status := FAILED, s_completedAt := Some (now e (drawn w1)),
                     s_logs := Some failureLogs\<rparr>) (tick (drawn w1))")
        case (Inl x)
        obtain err w' where x: "x = (err, w')" by (cases x)
        have r3: "resume e sid u (MarkStepFailed d t0 i (now e (drawn w1))) (tick (drawn w1)) =
            (Done, ?fail w')"
          using Inl x by (simp add: s Let_def failed_def)
        have f: "fail_step e d u t0 s (drawn w1) = Inl (err, w')"
          using Inl x by (simp add: fail_step_def)
        from run_step_Done [OF r3, of 0] obtain sent' where
          "run e sid u (replicate (Suc (Suc (Suc 0))) Resume) (MarkStepRunning d t0 fa i (now e w)) (tick w) sent =
             (Done, ?fail w', sent')"
          unfolding run_step [OF r1] run_step [OF r2] by blast
        moreover have "(case steps_loop e d u t0 fa i (s # rest) w of
               Inl (x, w') \<Rightarrow> ?fail w' | Inr w' \<Rightarrow> w') = ?fail w'"
          unfolding sl f by simp
        ultimately show ?thesis unfolding lh fst_conv snd_conv by metis
      next
        case (Inr w2)
        define c where "c = now e w2"
        define du where "du = seconds_since t0 (now e (tick w2))"
        have r3: "resume e sid u (MarkStepFailed d t0 i (now e (drawn w1))) (tick (drawn w1)) =
            (MarkFailed d t0 i c du, tick (tick w2))"
          using Inr by (simp add: s Let_def c_def du_def)
        define W where "W = (case fail_step e d u t0 s (drawn w1) of
               Inl (x, w') \<Rightarrow> ?fail w' | Inr w' \<Rightarrow> w')"
        have r4: "resume e sid u (MarkFailed d t0 i c du) (tick (tick w2)) = (Done, W)"
          using Inr
          by (auto simp: W_def fail_step_def s Let_def failed_def c_def du_def split: sum.splits)
        from run_step_Done [OF r4, of 0] obtain sent' where
          "run e sid u (replicate (Suc (Suc (Suc (Suc 0)))) Resume) (MarkStepRunning d t0 fa i (now e w)) (tick w) sent =
             (Done, W, sent')"
          unfolding run_step [OF r1] run_step [OF r2] run_step [OF r3] by blast
        then show ?thesis unfolding lh fst_conv snd_conv sl W_def by blast
      qed
    next
      case False
      have r2: "resume e sid u (Timer d t0 fa i a) (drawn w1) =
          (MarkStepCompleted d t0 fa i (now e (drawn w1)) a, tick (drawn w1))"
        using False by simp
      show ?thesis
      proof (cases "complete_step e d u s a (drawn w1)")
        case (Inl x)
        obtain err w' where x: "x = (err, w')" by (cases x)
        have r3: "resume e sid u (MarkStepCompleted d t0 fa i (now e (drawn w1)) a)
            (tick (drawn w1)) = (Done, ?fail w')"
          using Inl x by (auto simp: complete_step_def s Let_def failed_def split: sum.splits)
        have sl: "steps_loop e d u t0 fa i (s # rest) w = Inl (err, w')"
          using \<open>start_step e d u s w = Inr w1\<close> False Inl x by (simp add: Let_def a_def)
        from run_step_Done [OF r3, of 0] obtain sent' where
          "run e sid u (replicate (Suc (Suc (Suc 0))) Resume) (MarkStepRunning d t0 fa i (now e w)) (tick w) sent =
             (Done, ?fail w', sent')"
          unfolding run_step [OF r1] run_step [OF r2] by blast
        moreover have "(case steps_loop e d u t0 fa i (s # rest) w of
               Inl (x, w') \<Rightarrow> ?fail w' | Inr w' \<Rightarrow> w') = ?fail w'"
          unfolding sl by simp
        ultimately show ?thesis unfolding lh fst_conv snd_conv by metis
      next
        case (Inr w3)
        have r3: "resume e sid u (MarkStepCompleted d t0 fa i (now e (drawn w1)) a)
            (tick (drawn w1)) = loop_head e d t0 fa (Suc i) w3"
          using Inr by (auto simp: complete_step_def s Let_def split: sum.splits)
        have sl: "steps_loop e d u t0 fa i (s # rest) w = steps_loop e d u t0 fa (Suc i) rest w3"
          using \<open>start_step e d u s w = Inr w1\<close> False Inr by (simp add: Let_def a_def)
        obtain p' w' where lh': "loop_head e d t0 fa (Suc i) w3 = (p', w')"
          by (cases "loop_head e d t0 fa (Suc i) w3")
        from Cons.IH [OF rest, of w3] lh' obtain n sent' where
          "run e sid u (replicate n Resume) p' w'
             (((sent @ drop (length (emitted (tick w))) (emitted (drawn w1))) @
               drop (length (emitted (drawn w1))) (emitted (tick (drawn w1)))) @
              drop (length (emitted (tick (drawn w1)))) (emitted w')) =
           (Done,
            (case steps_loop e d u t0 fa (Suc i) rest w3 of
               Inl (x, w') \<Rightarrow> ?fail w' | Inr w' \<Rightarrow> w'),
            sent')"
          by fastforce
        then have "run e sid u (replicate (Suc (Suc (Suc n))) Resume)
            (MarkStepRunning d t0 fa i (now e w)) (tick w) sent =
           (Done,
            (case steps_loop e d u t0 fa (Suc i) rest w3 of
               Inl (x, w') \<Rightarrow> ?fail w' | Inr w' \<Rightarrow> w'),
            sent')"
          unfolding run_step [OF r1] run_step [OF r2] run_step [OF r3 [unfolded lh']] .
        then show ?thesis unfolding lh fst_conv snd_conv sl by blast
      qed
    qed
  qed
qed

lemma solo_simulate:
  "\<exists>n sent'.
     run e sid u (replicate n Resume) (MarkRunning d (now e w)) (tick w) sent =
     (Done,
      (case simulateDeployment e d u w of
         Inl (x, w') \<Rightarrow> emit (Socket sid) (deployment_error ''Failed to start deployment'') w'
       | Inr w' \<Rightarrow> w'),
      sent')"
proof (cases "deployment_update (d_id d) (\<lambda>r. r\<lparr>d_status := RUNNING\<rparr>) (tick w)")
  case (Inl x)
  obtain err w' where x: "x = (err, w')" by (cases x)
  let ?fail = "\<lambda>w'. emit (Socket sid) (deployment_error ''Failed to start deployment'') w'"
  have r: "resume e sid u (MarkRunning d (now e w)) (tick w) = (Done, ?fail w')"
    using Inl x by (simp add: failed_def)
  have sd: "simulateDeployment e d u w = Inl (err, w')"
    using Inl x by (simp add: simulateDeployment_def Let_def)
  from run_step_Done [OF r, of 0 sent] obtain sent' where
    "run e sid u (replicate (Suc 0) Resume) (MarkRunning d (now e w)) (tick w) sent =
       (Done, ?fail w', sent')" by blast
  moreover have "(case simulateDeployment e d u w of
         Inl (x, w') \<Rightarrow> ?fail w' | Inr w' \<Rightarrow> w') = ?fail w'"
    unfolding sd by simp
  ultimately show ?thesis by metis
next
  case (Inr w1)
  define w2 where "w2 = emit (userRoom u) (deployment_status (d_id d) RUNNING ''Deployment started'') w1"
  define w3 where "w3 = (if shouldFail e w2 then drawn (drawn w2) else drawn w2)"
  define fa where "fa = failAtStep_of e d w2"
  have r: "resume e sid u (MarkRunning d (now e w)) (tick w) = loop_head e d (now e w) fa 0 w3"
    unfolding resume.simps Inr sum.case Let_def w2_def w3_def fa_def ..
  have sd: "simulateDeployment e d u w = steps_loop e d u (now e w) fa 0 (steps d) w3"
    unfolding simulateDeployment_def Inr sum.case Let_def w2_def w3_def fa_def ..
  obtain p' w' where lh: "loop_head e d (now e w) fa 0 w3 = (p', w')"
    by (cases "loop_head e d (now e w) fa 0 w3")
  have "drop 0 (steps d) = steps d" by simp
  from solo_loop [OF this, of e sid u "now e w" fa w3
      "sent @ drop (length (emitted (tick w))) (emitted w')"]
  obtain n sent' where
    "run e sid u (replicate n Resume) p' w' (sent @ drop (length (emitted (tick w))) (emitted w')) =
       (Done,
        (case steps_loop e d u (now e w) fa 0 (steps d) w3 of
           Inl (x, w') \<Rightarrow> emit (Socket sid) (deployment_error ''Failed to start deployment'') w'
         | Inr w' \<Rightarrow> w'),
        sent')"
    unfolding lh fst_conv snd_conv by blast
  then have "run e sid u (replicate (Suc n) Resume) (MarkRunning d (now e w)) (tick w) sent =
       (Done,
        (case simulateDeployment e d u w of
           Inl (x, w') \<Rightarrow> emit (Socket sid) (deployment_error ''Failed to start deployment'') w'
         | Inr w' \<Rightarrow> w'),
        sent')"
    unfolding run_step [OF r [unfolded lh]] sd .
  then show ?thesis by blast
qed

lemma on_start_found:
  "f \<noteq> Invalid \<Longrightarrow>
   on_start_deployment e sid u (Data f) w = start_found e sid u (findFirst_where f u w) w"
  by (cases f) (simp_all add: start_deployment_found findFirst_where_Str)

text \<open>
  A run that is resumed until it has returned, with nothing in between, leaves the world
  that the handler leaves when it is taken as one step.
\<close>

lemma solo_run:
  "\<exists>n sent.
     run e sid u (replicate n Resume) (fst (arrive sid data w)) (snd (arrive sid data w)) [] =
     (Done, on_start_deployment e sid u data w, sent)"
proof (cases data)
  case NoData
  have "run e sid u (replicate 0 Resume) (fst (arrive sid data w)) (snd (arrive sid data w)) [] =
      (Done, on_start_deployment e sid u data w, [])"
    by (simp add: NoData arrive_def failed_def)
  then show ?thesis by blast
next
  case (Data f)
  then have a: "arrive sid data w = (FindFirst f, w)" by (simp add: arrive_def)
  show ?thesis
  proof (cases "f = Invalid")
    case True
    have r: "resume e sid u (FindFirst f) w =
        (Done, emit (Socket sid) (deployment_error ''Failed to start deployment'') w)"
      using True by (simp add: failed_def)
    have "on_start_deployment e sid u data w =
        emit (Socket sid) (deployment_error ''Failed to start deployment'') w"
      using True Data by simp
    with run_step_Done [OF r, of 0 "[]"] show ?thesis
      unfolding a fst_conv snd_conv by metis
  next
    case False
    note os = on_start_found [OF False, of e sid u w]
    show ?thesis
    proof (cases "findFirst_where f u w")
      case None
      have r: "resume e sid u (FindFirst f) w =
          (Done, emit (Socket sid) (deployment_error ''Deployment not found'') w)"
        using False None by simp
      have "on_start_deployment e sid u data w =
          emit (Socket sid) (deployment_error ''Deployment not found'') w"
        unfolding Data os None by (simp add: start_found_def)
      with run_step_Done [OF r, of 0 "[]"] show ?thesis
        unfolding a fst_conv snd_conv by metis
    next
      case (Some d)
      have r: "resume e sid u (FindFirst f) w = (MarkRunning d (now e w), tick w)"
        using False Some by simp
      have o: "on_start_deployment e sid u data w =
          (case simulateDeployment e d u w of
             Inl (x, w') \<Rightarrow> emit (Socket sid) (deployment_error ''Failed to start deployment'') w'
           | Inr w' \<Rightarrow> w')"
        unfolding Data os Some by (simp add: start_found_def)
      from solo_simulate [of e sid u d w "[] @ drop (length (emitted w)) (emitted (tick w))"]
      obtain n sent' where
        "run e sid u (replicate n Resume) (MarkRunning d (now e w)) (tick w)
           ([] @ drop (length (emitted w)) (emitted (tick w))) =
         (Done, on_start_deployment e sid u data w, sent')"
        unfolding o by blast
      then have "run e sid u (replicate (Suc n) Resume) (FindFirst f) w [] =
         (Done, on_start_deployment e sid u data w, sent')"
        unfolding run_step [OF r] .
      then show ?thesis unfolding a fst_conv snd_conv by blast
    qed
  qed
qed

section \<open>What the others leave of the rows of a run\<close>

lemma keeps_refl [simp]: "keeps w w"
  by (simp add: keeps_def)

lemma keeps_trans: "keeps w w1 \<Longrightarrow> keeps w1 w2 \<Longrightarrow> keeps w w2"
  by (auto simp: keeps_def)

lemma rowsPresent_keeps:
  assumes "rowsPresent d w" and "keeps w w'"
  shows "rowsPresent d w'"
  using assms unfolding rowsPresent_def deploymentPresent_def keeps_def list_all_iff list_ex_iff
  by blast

lemma deploymentStep_create_keeps: "keeps w (world_of (deploymentStep_create row w))"
  by (auto simp: deploymentStep_create_def keeps_def)

lemma deployment_create_keeps: "keeps w (world_of (deployment_create row w))"
  by (auto simp: deployment_create_def keeps_def)

lemma create_steps_keeps: "keeps w (world_of (create_steps e i k plan w))"
proof (induction plan arbitrary: k w)
  case Nil
  then show ?case by simp
next
  case (Cons p plan)
  let ?row = "\<lparr>s_id = cuid e (ids_made w), s_deploymentId = i, s_name = name p,
              s_description = description p, s_status = PENDING, s_startedAt = None,
              s_completedAt = None, s_logs = None, s_order = int k\<rparr>"
  have "keeps (w\<lparr>ids_made := Suc (ids_made w)\<rparr>)
      (world_of (deploymentStep_create ?row (w\<lparr>ids_made := Suc (ids_made w)\<rparr>)))"
    by (rule deploymentStep_create_keeps)
  then have n: "keeps w (world_of (deploymentStep_create ?row (w\<lparr>ids_made := Suc (ids_made w)\<rparr>)))"
    by (simp add: keeps_def)
  show ?case
  proof (cases "deploymentStep_create ?row (w\<lparr>ids_made := Suc (ids_made w)\<rparr>)")
    case (Inl x)
    with n show ?thesis by simp
  next
    case (Inr w1)
    with n have "keeps w w1" by simp
    from keeps_trans [OF this Cons.IH [of w1 "Suc k"]] Inr show ?thesis by simp
  qed
qed

lemma post_deployments_keeps: "keeps w (snd (post_deployments e u url nm w))"
proof (cases "falsy url")
  case True
  then show ?thesis by (simp add: post_deployments_def)
next
  case False
  define row where "row =
     \<lparr>d_id = cuid e (ids_made w), d_userId = u,
      d_modpackName = (if falsy nm then extractModpackName (the url) else the nm),
      d_modpackUrl = the url, d_status = PENDING, d_startedAt = now e w,
      d_completedAt = None, d_duration = None, d_logs = None, d_errorMsg = None\<rparr>"
  let ?w0 = "tick (w\<lparr>ids_made := Suc (ids_made w)\<rparr>)"
  have "keeps ?w0 (world_of (deployment_create row ?w0))" by (rule deployment_create_keeps)
  then have n: "keeps w (world_of (deployment_create row ?w0))"
    by (simp add: keeps_def tick_def)
  show ?thesis
  proof (cases "deployment_create row ?w0")
    case (Inl x)
    obtain err w1 where x: "x = (err, w1)" by (cases x)
    with Inl n False show ?thesis
      by (simp add: post_deployments_def Let_def row_def [symmetric])
  next
    case (Inr w1)
    with n have w1: "keeps w w1" by simp
    note n2 = keeps_trans [OF w1 create_steps_keeps [of w1 e "d_id row" 0 "createDeploymentPlan (the url)"]]
    show ?thesis
    proof (cases "create_steps e (d_id row) 0 (createDeploymentPlan (the url)) w1")
      case (Inl x)
      obtain err w2 where x: "x = (err, w2)" by (cases x)
      with Inl n2 Inr False show ?thesis
        by (simp add: post_deployments_def Let_def row_def [symmetric])
    next
      case (Inr w2)
      with n2 \<open>deployment_create row ?w0 = Inr w1\<close> False
      show ?thesis
        by (simp add: post_deployments_def Let_def row_def [symmetric])
    qed
  qed
qed

lemma delete_deployment_rowsPresent:
  assumes "rowsPresent d w" and "steps d \<noteq> []"
  shows "rowsPresent d (snd (delete_deployment u j w))"
proof (cases "j = d_id d")
  case True
  from assms(2) obtain s where "s \<in> set (steps d)" by (cases "steps d") auto
  with assms(1) have "list_ex (\<lambda>r. s_id r = s_id s \<and> s_deploymentId r = d_id d) (db_deploymentStep w)"
    by (simp add: rowsPresent_def list_all_iff)
  then have "list_ex (\<lambda>s. s_deploymentId s = j) (db_deploymentStep w)"
    unfolding True list_ex_iff by blast
  then have "snd (delete_deployment u j w) = w"
    by (simp add: delete_deployment_def split: option.splits)
  with assms(1) show ?thesis by simp
next
  case False
  have "deploymentPresent (d_id d) (w\<lparr>db_deployment := filter (\<lambda>r. d_id r \<noteq> j) (db_deployment w)\<rparr>)"
    using assms(1) False by (auto simp: rowsPresent_def deploymentPresent_def list_ex_iff)
  then have "rowsPresent d (w\<lparr>db_deployment := filter (\<lambda>r. d_id r \<noteq> j) (db_deployment w)\<rparr>)"
    using assms(1) by (simp add: rowsPresent_def)
  with assms(1) show ?thesis
    by (simp add: delete_deployment_def split: option.splits)
qed

lemma arrive_keys [simp]: "keys (snd (arrive sid data w)) = keys w"
  by (cases data) (simp_all add: arrive_def failed_def)

text \<open>
  In the system, every action leaves the rows of a deployment that has steps: the runs
  only update rows, the creation adds rows, and the deletion of a deployment whose steps
  exist is refused.
\<close>

lemma act_rowsPresent:
  assumes "rowsPresent d (snd c)" and "steps d \<noteq> []"
  shows "rowsPresent d (snd (act e a c))"
proof -
  obtain ts w where c: "c = (ts, w)" by (cases c)
  with assms(1) have w: "rowsPresent d w" by simp
  show ?thesis
  proof (cases a)
    case (Deliver sig)
    show ?thesis
    proof (cases sig)
      case (SocketEvent sid u nm data)
      have "rowsPresent d (snd (arrive sid data w))"
        using rowsPresent_keys [OF arrive_keys, of d sid data w] w by simp
      with Deliver c w SocketEvent show ?thesis by (auto split: prod.splits)
    next
      case (PostDeployments u url nm)
      from rowsPresent_keeps [OF w post_deployments_keeps] Deliver c PostDeployments
      show ?thesis by simp
    next
      case (DeleteDeployment u j)
      from delete_deployment_rowsPresent [OF w assms(2)] Deliver c DeleteDeployment
      show ?thesis by simp
    qed (use Deliver c w in simp_all)
  next
    case (Continue k)
    show ?thesis
    proof (cases "k < length ts")
      case True
      obtain sid u p where t: "ts ! k = (sid, u, p)" by (cases "ts ! k")
      from resume_rowsPresent [OF w, of e sid u p] Continue c True t show ?thesis
        by (auto split: prod.splits)
    next
      case False
      with Continue c w show ?thesis by simp
    qed
  qed
qed

lemma fold_act_rowsPresent:
  "rowsPresent d (snd c) \<Longrightarrow> steps d \<noteq> [] \<Longrightarrow> rowsPresent d (snd (fold (act e) as c))"
  by (induction as arbitrary: c) (simp_all add: act_rowsPresent)

section \<open>Order of the broadcasts in the system\<close>

lemma act_other:
  assumes "k < length ts" and "a \<noteq> Continue k"
  shows "k < length (fst (act e a (ts, w))) \<and> fst (act e a (ts, w)) ! k = ts ! k"
proof (cases a)
  case (Deliver sig)
  then show ?thesis using assms(1)
    by (cases sig) (auto simp: nth_append split: prod.splits)
next
  case (Continue j)
  with assms(2) have "j \<noteq> k" by simp
  with Continue assms(1) show ?thesis by (auto split: prod.splits)
qed

lemma fold_act_view:
  assumes "k < length ts" and "ts ! k = (sid, u, p)"
  shows "\<exists>p'.
           run e sid u (view e k as (ts, w)) p w sent =
             (p', snd (fold (act e) as (ts, w)), sent @ sent_by e k as (ts, w)) \<and>
           k < length (fst (fold (act e) as (ts, w))) \<and>
           fst (fold (act e) as (ts, w)) ! k = (sid, u, p')"
  using assms
proof (induction as arbitrary: ts w p sent)
  case Nil
  then show ?case by simp
next
  case (Cons a as)
  obtain ts1 w1 where a1: "act e a (ts, w) = (ts1, w1)" by (cases "act e a (ts, w)")
  show ?case
  proof (cases "a = Continue k")
    case True
    obtain p1 v1 where r: "resume e sid u p w = (p1, v1)" by (cases "resume e sid u p w")
    from a1 True Cons.prems r have ts1: "ts1 = ts[k := (sid, u, p1)]" and w1: "w1 = v1"
      by (simp_all del: resume.simps)
    have k1: "k < length ts1" "ts1 ! k = (sid, u, p1)" using Cons.prems(1) ts1 by simp_all
    from Cons.IH [OF k1, of w1 "sent @ drop (length (emitted w)) (emitted w1)"]
    show ?thesis using True a1 r w1 by (simp del: resume.simps act.simps)
  next
    case False
    from act_other [OF Cons.prems(1) False, of e w] a1 Cons.prems(2)
    have k1: "k < length ts1" "ts1 ! k = (sid, u, p)" by simp_all
    have v: "view e k (a # as) (ts, w) = Interfere w1 # view e k as (ts1, w1)"
      "sent_by e k (a # as) (ts, w) = sent_by e k as (ts1, w1)"
      using False a1 by (cases a; simp del: act.simps)+
    from Cons.IH [OF k1, of w1 sent] show ?thesis
      unfolding v using a1 by (simp del: act.simps)
  qed
qed

lemma view_rowsPresent:
  assumes "rowsPresent d (snd c)" and "steps d \<noteq> []"
  shows "list_all (rowsPresent d) (interferences (view e k as c))"
  using assms(1)
proof (induction as arbitrary: c)
  case Nil
  then show ?case by simp
next
  case (Cons a as)
  note n = act_rowsPresent [OF Cons.prems assms(2), of e a]
  from Cons.IH [OF n] n show ?case by (cases a) (auto simp del: act.simps)
qed

lemma resumes_view: "resumes (view e k as c) = continues k as"
proof (induction as arbitrary: c)
  case Nil
  then show ?case by simp
next
  case (Cons a as)
  then show ?case by (cases a) (simp_all del: act.simps)
qed

text \<open>
  Claim C8, as amended. In the system every run of the start handler sends its own events
  in order, whatever the other runs and the requests do between its segments. Let the
  run at position \<open>k\<close> wait for its query, whatever the payload of its event was; let
  the query be answered, with a deployment of the user that has steps, and let the system
  go on in any way in which the run is resumed often enough to return. Then the run has
  returned, and what it has sent is this: first the \<open>deployment-status\<close> event; as \<open>step-update\<close> events those that
  \<open>expectedUpdates\<close> lists for the steps in the order of the query, which is the order of
  their order index: for each step reached, in turn, its \<open>RUNNING\<close> event and directly
  after it its \<open>COMPLETED\<close> or \<open>FAILED\<close> event, the next step's \<open>RUNNING\<close> event only
  after that, so that the order indices of the steps named never decrease; exactly one
  \<open>deployment-complete\<close> event; and no \<open>deployment-error\<close>. All of them go to the room
  of the user. The steps have distinct identifiers, which are the primary key of their
  table.
\<close>

theorem broadcast_order:
  assumes "k < length ts" and "ts ! k = (sid, userId, FindFirst f)"
    and "find (\<lambda>r. selects f (d_id r) \<and> d_userId r = userId) (db_deployment w) = Some r"
    and "distinct (map s_id (db_deploymentStep w))"
    and "stepsOf (d_id r) w \<noteq> []"
    and "3 * length (stepsOf (d_id r) w) + 2 \<le> continues k as"
  shows "\<exists>fa.
           snd (snd (fst (fold (act e) (Continue k # as) (ts, w)) ! k)) = Done \<and>
           take 1 (sent_by e k (Continue k # as) (ts, w)) =
             [(userRoom userId, deployment_status (d_id r) RUNNING ''Deployment started'')] \<and>
           step_updates (sent_by e k (Continue k # as) (ts, w)) =
             expectedUpdates fa (stepsOf (d_id r) w) \<and>
           sorted (map s_order (stepsOf (d_id r) w)) \<and>
           sorted (map (\<lambda>p. orderIndex (with_steps r (stepsOf (d_id r) w)) (fst p))
                     (step_updates (sent_by e k (Continue k # as) (ts, w)))) \<and>
           length (completions (sent_by e k (Continue k # as) (ts, w))) = 1 \<and>
           errors (sent_by e k (Continue k # as) (ts, w)) = [] \<and>
           list_all (\<lambda>ce. fst ce = userRoom userId) (sent_by e k (Continue k # as) (ts, w))"
proof -
  define d where "d = with_steps r (stepsOf (d_id r) w)"
  define c1 where "c1 = act e (Continue k) (ts, w)"
  define ms where "ms = view e k as c1"
  have r1: "resume e sid userId (FindFirst f) w = (MarkRunning d (now e w), tick w)"
    using assms(3) find_selects(1) [OF assms(3)] by (simp add: findFirst_where_def d_def)
  have w1: "snd c1 = tick w"
    using assms(1,2) r1 by (simp add: c1_def del: resume.simps)
  have rp: "rowsPresent d (snd c1)"
    unfolding w1 using rowsPresent_fetched [OF assms(3)] by (simp add: d_def)
  have st: "steps d \<noteq> []" using assms(5) by (simp add: d_def)
  have i: "list_all (rowsPresent (with_steps r (stepsOf (d_id r) w))) (interferences ms)"
    unfolding ms_def d_def [symmetric] using rp st by (rule view_rowsPresent)
  have n: "3 * length (stepsOf (d_id r) w) + 2 \<le> resumes ms"
    unfolding ms_def resumes_view by (rule assms(6))
  from run_order [OF assms(3,4) i n, of e sid] obtain w' sent fa where
    run: "run e sid userId (Resume # ms) (FindFirst f) w [] = (Done, w', sent)"
    and props: "take 1 sent =
             [(userRoom userId, deployment_status (d_id r) RUNNING ''Deployment started'')]"
      "step_updates sent = expectedUpdates fa (stepsOf (d_id r) w)"
      "sorted (map s_order (stepsOf (d_id r) w))"
      "sorted (map (\<lambda>p. orderIndex (with_steps r (stepsOf (d_id r) w)) (fst p))
                     (step_updates sent))"
      "length (completions sent) = 1" "errors sent = []"
      "list_all (\<lambda>ce. fst ce = userRoom userId) sent"
    by blast
  have v: "view e k (Continue k # as) (ts, w) = Resume # ms"
    by (simp add: ms_def c1_def del: act.simps)
  from fold_act_view [OF assms(1,2), of e "Continue k # as" w "[]"] obtain p' where
    "run e sid userId (Resume # ms) (FindFirst f) w [] =
       (p', snd (fold (act e) (Continue k # as) (ts, w)), sent_by e k (Continue k # as) (ts, w))"
    and "fst (fold (act e) (Continue k # as) (ts, w)) ! k = (sid, userId, p')"
    unfolding v by auto
  with run have "sent_by e k (Continue k # as) (ts, w) = sent"
    and "snd (snd (fst (fold (act e) (Continue k # as) (ts, w)) ! k)) = Done"
    by simp_all
  with props show ?thesis by blast
qed

theorem broadcast_order_witness:
  "0 < length [(''k1'', ''u1'', FindFirst (Str ''d1''))] \<and>
   [(''k1'', ''u1'', FindFirst (Str ''d1''))] ! 0 = (''k1'', ''u1'', FindFirst (Str ''d1'')) \<and>
   find (\<lambda>r. selects (Str ''d1'') (d_id r) \<and> d_userId r = ''u1'') (db_deployment (world_ex PENDING)) =
     Some (row_ex PENDING) \<and>
   distinct (map s_id (db_deploymentStep (world_ex PENDING))) \<and>
   stepsOf (d_id (row_ex PENDING)) (world_ex PENDING) \<noteq> [] \<and>
   3 * length (stepsOf (d_id (row_ex PENDING)) (world_ex PENDING)) + 2 \<le> continues 0 overlap_ex \<and>
   (\<exists>fa.
      snd (snd (fst (fold (act env_ok) (Continue 0 # overlap_ex)
        ([(''k1'', ''u1'', FindFirst (Str ''d1''))], world_ex PENDING)) ! 0)) = Done \<and>
      take 1 (sent_by env_ok 0 (Continue 0 # overlap_ex)
        ([(''k1'', ''u1'', FindFirst (Str ''d1''))], world_ex PENDING)) =
        [(userRoom ''u1'', deployment_status (d_id (row_ex PENDING)) RUNNING ''Deployment started'')] \<and>
      step_updates (sent_by env_ok 0 (Continue 0 # overlap_ex)
        ([(''k1'', ''u1'', FindFirst (Str ''d1''))], world_ex PENDING)) =
        expectedUpdates fa (stepsOf (d_id (row_ex PENDING)) (world_ex PENDING)) \<and>
      sorted (map s_order (stepsOf (d_id (row_ex PENDING)) (world_ex PENDING))) \<and>
      sorted (map (\<lambda>p. orderIndex (with_steps (row_ex PENDING)
                           (stepsOf (d_id (row_ex PENDING)) (world_ex PENDING))) (fst p))
                (step_updates (sent_by env_ok 0 (Continue 0 # overlap_ex)
                   ([(''k1'', ''u1'', FindFirst (Str ''d1''))], world_ex PENDING)))) \<and>
      length (completions (sent_by env_ok 0 (Continue 0 # overlap_ex)
        ([(''k1'', ''u1'', FindFirst (Str ''d1''))], world_ex PENDING))) = 1 \<and>
      errors (sent_by env_ok 0 (Continue 0 # overlap_ex)
        ([(''k1'', ''u1'', FindFirst (Str ''d1''))], world_ex PENDING)) = [] \<and>
      list_all (\<lambda>ce. fst ce = userRoom ''u1'')
        (sent_by env_ok 0 (Continue 0 # overlap_ex)
           ([(''k1'', ''u1'', FindFirst (Str ''d1''))], world_ex PENDING)))"
proof -
  have h1: "0 < length [(''k1'', ''u1'', FindFirst (Str ''d1''))]" by simp
  have h2: "[(''k1'', ''u1'', FindFirst (Str ''d1''))] ! 0 = (''k1'', ''u1'', FindFirst (Str ''d1''))"
    by simp
  have h3: "find (\<lambda>r. selects (Str ''d1'') (d_id r) \<and> d_userId r = ''u1'')
      (db_deployment (world_ex PENDING)) = Some (row_ex PENDING)"
    by (simp add: world_ex_def row_ex_def)
  have h4: "distinct (map s_id (db_deploymentStep (world_ex PENDING)))"
    by (simp add: world_ex_def steps_ex_def step_ex_def)
  have so: "stepsOf (d_id (row_ex PENDING)) (world_ex PENDING) = steps_ex PENDING"
    by (simp add: stepsOf_def world_ex_def steps_ex_def step_ex_def row_ex_def)
  have h5: "stepsOf (d_id (row_ex PENDING)) (world_ex PENDING) \<noteq> []"
    unfolding so by (simp add: steps_ex_def)
  have h6: "3 * length (stepsOf (d_id (row_ex PENDING)) (world_ex PENDING)) + 2 \<le>
      continues 0 overlap_ex"
    unfolding so by (simp add: steps_ex_def overlap_ex_def)
  show ?thesis
    by (intro conjI h1 h2 h3 h4 h5 h6 broadcast_order [OF h1 h2 h3 h4 h5 h6])
qed

section \<open>Runs that overlap\<close>

text \<open>
  The handler does not look at the status, so a deployment can be started while a run of
  it is under way. In \<open>overlap_ex\<close> a second run of the deployment \<open>d1\<close> is started when
  the first has announced its step \<open>s1\<close> as running. Each of the two sends its own events
  in the order above.
\<close>

lemma overlapping_runs:
  "step_updates (sent_by env_ok 0 (Continue 0 # overlap_ex)
     ([(''k1'', ''u1'', FindFirst (Str ''d1''))], world_ex PENDING)) =
     [(''s0'', RUNNING), (''s0'', COMPLETED), (''s1'', RUNNING), (''s1'', COMPLETED),
      (''s2'', RUNNING), (''s2'', COMPLETED)] \<and>
   step_updates (sent_by env_ok 1 (Continue 0 # overlap_ex)
     ([(''k1'', ''u1'', FindFirst (Str ''d1''))], world_ex PENDING)) =
     [(''s0'', RUNNING)]"
  by (simp add: overlap_ex_def arrive_def findFirst_where_def stepsOf_def loop_head_def run_defs
      env_ok_def)

text \<open>The system at the end of the schedule: the first run has returned.\<close>

lemma overlap_final:
  "(case fold (act env_ok) (Continue 0 # overlap_ex)
           ([(''k1'', ''u1'', FindFirst (Str ''d1''))], world_ex PENDING) of
      (ts, w) \<Rightarrow>
        snd (snd (ts ! 0)) = Done \<and>
        step_updates (emitted w) =
          [(''s0'', RUNNING), (''s0'', COMPLETED), (''s1'', RUNNING), (''s0'', RUNNING),
           (''s1'', COMPLETED), (''s2'', RUNNING), (''s2'', COMPLETED)])"
  by (simp add: overlap_ex_def arrive_def findFirst_where_def stepsOf_def loop_head_def run_defs
      env_ok_def)

text \<open>
  A run of a deployment without steps can lose the row of the deployment: nothing
  restricts the deletion. The first update of the run is then rejected, and the run
  returns through the \<open>catch\<close> of the handler.
\<close>

lemma deleted_final:
  "(case fold (act env_ok) (Continue 0 # deleted_ex)
           ([(''k1'', ''u1'', FindFirst (Str ''d1''))], world_bare) of
      (ts, w) \<Rightarrow>
        snd (snd (ts ! 0)) = Done \<and>
        emitted w = [(Socket ''k1'', deployment_error ''Failed to start deployment'')]) \<and>
   sent_by env_ok 0 (Continue 0 # deleted_ex)
     ([(''k1'', ''u1'', FindFirst (Str ''d1''))], world_bare) =
     [(Socket ''k1'', deployment_error ''Failed to start deployment'')]"
  by (simp add: deleted_ex_def world_bare_def findFirst_where_def stepsOf_def failed_def
      delete_deployment_def run_defs env_ok_def)

text \<open>
  Claim C8 as stated fails, in two ways. Between the query of the first run of
  \<open>overlap_ex\<close> and its return, the \<open>step-update\<close> events that are broadcast, all for the
  deployment \<open>d1\<close> and to the room of its user, are those of both runs interleaved: the
  step \<open>s0\<close> is announced as running after \<open>s1\<close> was, and the order indices of the steps
  named are 0, 0, 1, 0, 1, 2, 2. And the run of \<open>deleted_ex\<close>, of a deployment without
  steps that is deleted under it, returns without a \<open>deployment-complete\<close> event: all
  that is sent is a \<open>deployment-error\<close> event to its socket.
\<close>

theorem broadcast_counterexample:
  "snd (snd (fst (fold (act env_ok) (Continue 0 # overlap_ex)
     ([(''k1'', ''u1'', FindFirst (Str ''d1''))], world_ex PENDING)) ! 0)) = Done \<and>
   step_updates (emitted (snd (fold (act env_ok) (Continue 0 # overlap_ex)
     ([(''k1'', ''u1'', FindFirst (Str ''d1''))], world_ex PENDING)))) =
     [(''s0'', RUNNING), (''s0'', COMPLETED), (''s1'', RUNNING), (''s0'', RUNNING),
      (''s1'', COMPLETED), (''s2'', RUNNING), (''s2'', COMPLETED)] \<and>
   map (\<lambda>p. orderIndex (deployment_ex PENDING) (fst p))
     [(''s0'', RUNNING), (''s0'', COMPLETED), (''s1'', RUNNING), (''s0'', RUNNING),
      (''s1'', COMPLETED), (''s2'', RUNNING), (''s2'', COMPLETED)] = [0, 0, 1, 0, 1, 2, 2] \<and>
   \<not> sorted (map (\<lambda>p. orderIndex (deployment_ex PENDING) (fst p))
     (step_updates (emitted (snd (fold (act env_ok) (Continue 0 # overlap_ex)
        ([(''k1'', ''u1'', FindFirst (Str ''d1''))], world_ex PENDING)))))) \<and>
   snd (snd (fst (fold (act env_ok) (Continue 0 # deleted_ex)
     ([(''k1'', ''u1'', FindFirst (Str ''d1''))], world_bare)) ! 0)) = Done \<and>
   completions (emitted (snd (fold (act env_ok) (Continue 0 # deleted_ex)
     ([(''k1'', ''u1'', FindFirst (Str ''d1''))], world_bare)))) = [] \<and>
   sent_by env_ok 0 (Continue 0 # deleted_ex)
     ([(''k1'', ''u1'', FindFirst (Str ''d1''))], world_bare) =
     [(Socket ''k1'', deployment_error ''Failed to start deployment'')]"
proof -
  let ?c = "fold (act env_ok) (Continue 0 # overlap_ex)
     ([(''k1'', ''u1'', FindFirst (Str ''d1''))], world_ex PENDING)"
  let ?c' = "fold (act env_ok) (Continue 0 # deleted_ex)
     ([(''k1'', ''u1'', FindFirst (Str ''d1''))], world_bare)"
  from overlap_final have a: "snd (snd (fst ?c ! 0)) = Done"
    and b: "step_updates (emitted (snd ?c)) =
     [(''s0'', RUNNING), (''s0'', COMPLETED), (''s1'', RUNNING), (''s0'', RUNNING),
      (''s1'', COMPLETED), (''s2'', RUNNING), (''s2'', COMPLETED)]"
    by (simp_all add: case_prod_beta)
  have c: "map (\<lambda>p. orderIndex (deployment_ex PENDING) (fst p))
     [(''s0'', RUNNING), (''s0'', COMPLETED), (''s1'', RUNNING), (''s0'', RUNNING),
      (''s1'', COMPLETED), (''s2'', RUNNING), (''s2'', COMPLETED)] = [0, 0, 1, 0, 1, 2, 2]"
    by (simp add: orderIndex_def deployment_ex_def with_steps_def steps_ex_def step_ex_def)
  have d: "\<not> sorted (map (\<lambda>p. orderIndex (deployment_ex PENDING) (fst p))
     (step_updates (emitted (snd ?c))))"
    unfolding b c by simp
  from deleted_final have f: "snd (snd (fst ?c' ! 0)) = Done"
    and g: "emitted (snd ?c') = [(Socket ''k1'', deployment_error ''Failed to start deployment'')]"
    and h: "sent_by env_ok 0 (Continue 0 # deleted_ex)
     ([(''k1'', ''u1'', FindFirst (Str ''d1''))], world_bare) =
     [(Socket ''k1'', deployment_error ''Failed to start deployment'')]"
    by (simp_all add: case_prod_beta)
  have i: "completions (emitted (snd ?c')) = []"
    unfolding g by (simp add: completions_def completeOf_def)
  from a b c d f i h show ?thesis by (intro conjI)
qed

section \<open>Nothing writes \<open>CANCELLED\<close>\<close>

lemma noCancelled_drawn [simp]: "noCancelled (drawn w) = noCancelled w"
  by (simp add: noCancelled_def drawn_def)

lemma start_step_noCancelled:
  "noCancelled w \<Longrightarrow> noCancelled (world_of (start_step e d u s w))"
  by (auto simp: start_step_def deploymentStep_update_def noCancelled_def tick_def emit_def
      list_all_iff eventStatus_def)

lemma complete_step_noCancelled:
  "noCancelled w \<Longrightarrow> noCancelled (world_of (complete_step e d u s a w))"
  by (auto simp: complete_step_def deploymentStep_update_def noCancelled_def tick_def emit_def
      list_all_iff eventStatus_def)

lemma fail_step_noCancelled:
  "noCancelled w \<Longrightarrow> noCancelled (world_of (fail_step e d u t0 s w))"
  by (auto simp: fail_step_def deploymentStep_update_def deployment_update_def noCancelled_def
      tick_def emit_def list_all_iff eventStatus_def Let_def)

lemma finish_deployment_noCancelled:
  "noCancelled w \<Longrightarrow> noCancelled (world_of (finish_deployment e d u t0 w))"
  by (auto simp: finish_deployment_def deployment_update_def noCancelled_def
      tick_def emit_def list_all_iff eventStatus_def Let_def)

lemma steps_loop_noCancelled:
  "noCancelled w \<Longrightarrow> noCancelled (world_of (steps_loop e d u t0 fa i rest w))"
proof (induction rest arbitrary: i w)
  case Nil
  then show ?case by (simp add: finish_deployment_noCancelled)
next
  case (Cons s rest)
  note n1 = start_step_noCancelled [OF Cons.prems, of e d u s]
  show ?case
  proof (cases "start_step e d u s w")
    case (Inl x)
    with n1 show ?thesis by simp
  next
    case (Inr w1)
    with n1 have w1: "noCancelled (drawn w1)" by simp
    let ?a = "actualDuration_of e d i w1"
    show ?thesis
    proof (cases "int i = fa")
      case True
      with Inr fail_step_noCancelled [OF w1, of e d u t0 s] show ?thesis
        by (simp add: Let_def)
    next
      case False
      note n3 = complete_step_noCancelled [OF w1, of e d u s ?a]
      show ?thesis
      proof (cases "complete_step e d u s ?a (drawn w1)")
        case (Inl x)
        with Inr False n3 show ?thesis by (simp add: Let_def)
      next
        case (Inr w3)
        with n3 have "noCancelled w3" by simp
        from Cons.IH [OF this, of "Suc i"] \<open>start_step e d u s w = Inr w1\<close> Inr False
        show ?thesis by (simp add: Let_def)
      qed
    qed
  qed
qed

lemma simulateDeployment_noCancelled:
  assumes "noCancelled w"
  shows "noCancelled (world_of (simulateDeployment e d u w))"
proof (cases "deployment_update (d_id d) (\<lambda>r. r\<lparr>d_status := RUNNING\<rparr>) (tick w)")
  case (Inl x)
  then have "x = (RecordNotFound, tick w)" by (simp add: deployment_update_Inl)
  with Inl assms show ?thesis
    by (simp add: simulateDeployment_def Let_def noCancelled_def tick_def)
next
  case (Inr w1)
  then have "noCancelled w1"
    using assms by (auto simp: deployment_update_Inr noCancelled_def tick_def list_all_iff)
  then have "noCancelled (emit (userRoom u) (deployment_status (d_id d) RUNNING ''Deployment started'') w1)"
    by (simp add: noCancelled_def emit_def eventStatus_def)
  then show ?thesis
    using Inr by (simp add: simulateDeployment_def Let_def steps_loop_noCancelled)
qed

lemma start_found_noCancelled:
  assumes "noCancelled w"
  shows "noCancelled (start_found e sid u found w)"
proof (cases found)
  case None
  with assms show ?thesis
    by (simp add: start_found_def noCancelled_def emit_def eventStatus_def)
next
  case (Some d)
  note n = simulateDeployment_noCancelled [OF assms, of e d u]
  show ?thesis
  proof (cases "simulateDeployment e d u w")
    case (Inl x)
    obtain err w' where x: "x = (err, w')" by (cases x)
    with Inl n have "noCancelled w'" by simp
    then have "noCancelled (emit (Socket sid) (deployment_error ''Failed to start deployment'') w')"
      by (simp add: noCancelled_def emit_def eventStatus_def)
    with Some Inl x show ?thesis by (simp add: start_found_def)
  next
    case (Inr w')
    with Some n show ?thesis by (simp add: start_found_def)
  qed
qed

lemma on_start_deployment_noCancelled:
  assumes "noCancelled w"
  shows "noCancelled (on_start_deployment e sid u data w)"
proof (cases data)
  case NoData
  with assms show ?thesis by (simp add: noCancelled_def emit_def eventStatus_def)
next
  case (Data f)
  show ?thesis
  proof (cases f)
    case Invalid
    with Data assms show ?thesis by (simp add: noCancelled_def emit_def eventStatus_def)
  qed (simp_all add: Data start_deployment_found start_found_noCancelled [OF assms])
qed

lemma create_steps_noCancelled:
  "noCancelled w \<Longrightarrow> noCancelled (world_of (create_steps e i k plan w))"
proof (induction plan arbitrary: k w)
  case Nil
  then show ?case by simp
next
  case (Cons p plan)
  let ?row = "\<lparr>s_id = cuid e (ids_made w), s_deploymentId = i, s_name = name p,
              s_description = description p, s_status = PENDING, s_startedAt = None,
              s_completedAt = None, s_logs = None, s_order = int k\<rparr>"
  have n: "noCancelled (world_of (deploymentStep_create ?row (w\<lparr>ids_made := Suc (ids_made w)\<rparr>)))"
    using Cons.prems by (simp add: deploymentStep_create_def noCancelled_def)
  show ?case
  proof (cases "deploymentStep_create ?row (w\<lparr>ids_made := Suc (ids_made w)\<rparr>)")
    case (Inl x)
    with n show ?thesis by simp
  next
    case (Inr w1)
    with n have "noCancelled w1" by simp
    from Cons.IH [OF this, of "Suc k"] Inr show ?thesis by simp
  qed
qed

lemma post_deployments_noCancelled:
  assumes "noCancelled w"
  shows "noCancelled (snd (post_deployments e u url nm w))"
proof (cases "falsy url")
  case True
  with assms show ?thesis by (simp add: post_deployments_def)
next
  case False
  define row where "row =
     \<lparr>d_id = cuid e (ids_made w), d_userId = u,
      d_modpackName = (if falsy nm then extractModpackName (the url) else the nm),
      d_modpackUrl = the url, d_status = PENDING, d_startedAt = now e w,
      d_completedAt = None, d_duration = None, d_logs = None, d_errorMsg = None\<rparr>"
  have n: "noCancelled (world_of (deployment_create row (tick (w\<lparr>ids_made := Suc (ids_made w)\<rparr>))))"
    using assms by (simp add: deployment_create_def noCancelled_def tick_def row_def)
  show ?thesis
  proof (cases "deployment_create row (tick (w\<lparr>ids_made := Suc (ids_made w)\<rparr>))")
    case (Inl x)
    obtain err w1 where x: "x = (err, w1)" by (cases x)
    with Inl n False show ?thesis
      by (simp add: post_deployments_def Let_def row_def [symmetric])
  next
    case (Inr w1)
    with n have w1: "noCancelled w1" by simp
    note n2 = create_steps_noCancelled [OF w1, of e "d_id row" 0 "createDeploymentPlan (the url)"]
    show ?thesis
    proof (cases "create_steps e (d_id row) 0 (createDeploymentPlan (the url)) w1")
      case (Inl x)
      obtain err w2 where x: "x = (err, w2)" by (cases x)
      with Inl n2 Inr False show ?thesis
        by (simp add: post_deployments_def Let_def row_def [symmetric])
    next
      case (Inr w2)
      with n2 \<open>deployment_create row (tick (w\<lparr>ids_made := Suc (ids_made w)\<rparr>)) = Inr w1\<close> False
      show ?thesis
        by (simp add: post_deployments_def Let_def row_def [symmetric])
    qed
  qed
qed

lemma delete_deployment_noCancelled:
  "noCancelled w \<Longrightarrow> noCancelled (snd (delete_deployment u i w))"
  by (auto simp: delete_deployment_def noCancelled_def list_all_iff split: option.splits)

lemma handle_noCancelled: "noCancelled w \<Longrightarrow> noCancelled (handle e sig w)"
  by (cases sig) (simp_all add: socket_on_def on_start_deployment_noCancelled
      post_deployments_noCancelled delete_deployment_noCancelled)

lemma fold_handle_noCancelled: "noCancelled w \<Longrightarrow> noCancelled (fold (handle e) sigs w)"
  by (induction sigs arbitrary: w) (simp_all add: handle_noCancelled)

lemma noCancelled_row:
  "noCancelled w \<Longrightarrow> map_option d_status (deploymentRow w i) \<noteq> Some CANCELLED"
  by (auto simp: noCancelled_def deploymentRow_def list_all_iff find_Some_iff)

text \<open>The same of the segments of a run, and so of the system with its runs interleaved.\<close>

lemma resume_noCancelled: "noCancelled w \<Longrightarrow> noCancelled (snd (resume e sid u p w))"
  by (cases p)
     (auto simp: failed_def loop_head_def Let_def deployment_update_def deploymentStep_update_def
        noCancelled_def tick_def emit_def drawn_def list_all_iff eventStatus_def
        split: sum.splits prod.splits option.splits)

lemma arrive_noCancelled: "noCancelled w \<Longrightarrow> noCancelled (snd (arrive sid data w))"
  by (cases data) (simp_all add: arrive_def failed_def noCancelled_def emit_def eventStatus_def)

lemma act_noCancelled: "noCancelled (snd c) \<Longrightarrow> noCancelled (snd (act e a c))"
proof -
  assume n: "noCancelled (snd c)"
  obtain ts w where c: "c = (ts, w)" by (cases c)
  with n have w: "noCancelled w" by simp
  show ?thesis
  proof (cases a)
    case (Deliver sig)
    show ?thesis
    proof (cases sig)
      case (SocketEvent sid u nm data)
      with Deliver c w arrive_noCancelled [OF w, of sid data] show ?thesis
        by (auto split: prod.splits)
    qed (use Deliver c w post_deployments_noCancelled delete_deployment_noCancelled in simp_all)
  next
    case (Continue k)
    show ?thesis
    proof (cases "k < length ts")
      case True
      obtain sid u p where t: "ts ! k = (sid, u, p)" by (cases "ts ! k")
      from resume_noCancelled [OF w, of e sid u p] Continue c True t show ?thesis
        by (auto split: prod.splits)
    next
      case False
      with Continue c w show ?thesis by simp
    qed
  qed
qed

lemma fold_act_noCancelled: "noCancelled (snd c) \<Longrightarrow> noCancelled (snd (fold (act e) as c))"
  by (induction as arbitrary: c) (simp_all add: act_noCancelled)

text \<open>
  Claim C3, as amended. No signal moves a deployment to \<open>CANCELLED\<close>: the socket has
  handlers for \<open>start-deployment\<close> and \<open>disconnect\<close> only, there is no request that
  cancels, and nothing writes or broadcasts that status. From a world without it, no
  sequence of socket events, of any name and payload, and of requests to the deployments
  router reaches one with a cancelled deployment, a cancelled step or an event that
  announces \<open>CANCELLED\<close>: neither when every handler runs to its end before the next
  signal, nor when the runs of the start handler are interleaved with each other and
  with the requests in any way.
\<close>

theorem cancelled_unreachable:
  assumes "noCancelled w"
  shows "noCancelled (fold (handle e) sigs w) \<and>
         map_option d_status (deploymentRow (fold (handle e) sigs w) deploymentId) \<noteq> Some CANCELLED \<and>
         noCancelled (snd (fold (act e) as (ts, w))) \<and>
         map_option d_status (deploymentRow (snd (fold (act e) as (ts, w))) deploymentId) \<noteq>
           Some CANCELLED"
proof -
  have a: "noCancelled (fold (handle e) sigs w)" by (rule fold_handle_noCancelled [OF assms])
  have b: "noCancelled (snd (fold (act e) as (ts, w)))"
    using fold_act_noCancelled [of "(ts, w)" e as] assms by simp
  show ?thesis by (intro conjI a b noCancelled_row [OF a] noCancelled_row [OF b])
qed

theorem cancelled_unreachable_witness:
  "noCancelled (world_ex PENDING) \<and>
   noCancelled (fold (handle env_ok)
     [SocketEvent ''k1'' ''u1'' ''cancel-deployment'' (Data (Str ''d1'')),
      SocketEvent ''k1'' ''u1'' ''start-deployment'' (Data (Str ''d1''))] (world_ex PENDING)) \<and>
   map_option d_status (deploymentRow (fold (handle env_ok)
     [SocketEvent ''k1'' ''u1'' ''cancel-deployment'' (Data (Str ''d1'')),
      SocketEvent ''k1'' ''u1'' ''start-deployment'' (Data (Str ''d1''))] (world_ex PENDING)) ''d1'')
     \<noteq> Some CANCELLED \<and>
   noCancelled (snd (fold (act env_ok)
     [Deliver (SocketEvent ''k1'' ''u1'' ''cancel-deployment'' (Data (Str ''d1''))),
      Deliver (SocketEvent ''k1'' ''u1'' ''start-deployment'' (Data (Str ''d1''))),
      Continue 0, Deliver (DeleteDeployment ''u1'' ''d1''), Continue 0]
     ([], world_ex PENDING))) \<and>
   map_option d_status (deploymentRow (snd (fold (act env_ok)
     [Deliver (SocketEvent ''k1'' ''u1'' ''cancel-deployment'' (Data (Str ''d1''))),
      Deliver (SocketEvent ''k1'' ''u1'' ''start-deployment'' (Data (Str ''d1''))),
      Continue 0, Deliver (DeleteDeployment ''u1'' ''d1''), Continue 0]
     ([], world_ex PENDING))) ''d1'') \<noteq> Some CANCELLED"
proof -
  have h: "noCancelled (world_ex PENDING)"
    by (simp add: noCancelled_def world_ex_def row_ex_def steps_ex_def step_ex_def)
  note t = cancelled_unreachable [OF h]
  show ?thesis
    by (intro conjI h t [THEN conjunct1] t [THEN conjunct2, THEN conjunct1]
        t [THEN conjunct2, THEN conjunct2, THEN conjunct1]
        t [THEN conjunct2, THEN conjunct2, THEN conjunct2])
qed

text \<open>
  Claim C3 as stated fails: for the pending deployment and for the running deployment
  of the example store there is no environment and no sequence of signals, however the
  runs are interleaved, after which the deployment is \<open>CANCELLED\<close>.
\<close>

theorem cancellation_counterexample:
  "\<not> (\<exists>e sigs. map_option d_status (deploymentRow (fold (handle e) sigs (world_ex PENDING)) ''d1'')
          = Some CANCELLED) \<and>
   \<not> (\<exists>e sigs. map_option d_status (deploymentRow (fold (handle e) sigs (world_ex RUNNING)) ''d1'')
          = Some CANCELLED) \<and>
   \<not> (\<exists>e as. map_option d_status
          (deploymentRow (snd (fold (act e) as ([], world_ex PENDING))) ''d1'') = Some CANCELLED) \<and>
   \<not> (\<exists>e as. map_option d_status
          (deploymentRow (snd (fold (act e) as ([], world_ex RUNNING))) ''d1'') = Some CANCELLED)"
proof -
  have n: "noCancelled (world_ex PENDING)" "noCancelled (world_ex RUNNING)"
    by (simp_all add: noCancelled_def world_ex_def row_ex_def steps_ex_def step_ex_def)
  then have "noCancelled (snd (fold (act e) as ([], world_ex PENDING)))"
    "noCancelled (snd (fold (act e) as ([], world_ex RUNNING)))" for e as
    using fold_act_noCancelled [of "([], world_ex PENDING)"]
      fold_act_noCancelled [of "([], world_ex RUNNING)"] by simp_all
  with n show ?thesis
    using fold_handle_noCancelled noCancelled_row by blast
qed


section \<open>Creating the steps of a plan\<close>

lemma step_rows_length [simp]: "length (step_rows e i k n plan) = length plan"
  by (induction plan arbitrary: k n) simp_all

lemma step_rows_name: "map s_name (step_rows e i k n plan) = map name plan"
  by (induction plan arbitrary: k n) simp_all

lemma step_rows_status: "map s_status (step_rows e i k n plan) = replicate (length plan) PENDING"
  by (induction plan arbitrary: k n) simp_all

lemma step_rows_order: "map s_order (step_rows e i k n plan) = map int [k ..< k + length plan]"
  by (induction plan arbitrary: k n) (simp_all add: upt_conv_Cons del: upt_Suc)

lemma step_rows_deploymentId:
  "filter (\<lambda>s. s_deploymentId s = i) (step_rows e i k n plan) = step_rows e i k n plan"
  by (induction plan arbitrary: k n) simp_all

lemma sorted_map_int_upt: "sorted (map int [k ..< m])"
  by (simp add: sorted_map sorted_wrt_iff_nth_less)

lemma distinct_map_int_upt: "distinct (map int [k ..< m])"
  by (simp add: distinct_map)

lemma create_steps_ok:
  assumes "deploymentPresent i w"
    and "distinct (map s_id (db_deploymentStep w) @
                   map (cuid e) [ids_made w ..< ids_made w + length plan])"
  shows "\<exists>w'. create_steps e i k plan w = Inr w' \<and>
           db_deploymentStep w' = db_deploymentStep w @ step_rows e i k (ids_made w) plan \<and>
           db_deployment w' = db_deployment w \<and> emitted w' = emitted w \<and>
           ids_made w' = ids_made w + length plan"
  using assms
proof (induction plan arbitrary: k w)
  case Nil
  then show ?case by simp
next
  case (Cons p plan)
  let ?row = "\<lparr>s_id = cuid e (ids_made w), s_deploymentId = i, s_name = name p,
              s_description = description p, s_status = PENDING, s_startedAt = None,
              s_completedAt = None, s_logs = None, s_order = int k\<rparr>"
  let ?w1 = "w\<lparr>ids_made := Suc (ids_made w), db_deploymentStep := db_deploymentStep w @ [?row]\<rparr>"
  from Cons.prems(2) have d: "cuid e (ids_made w) \<notin> set (map s_id (db_deploymentStep w))"
    "distinct (map s_id (db_deploymentStep ?w1) @
               map (cuid e) [ids_made ?w1 ..< ids_made ?w1 + length plan])"
    by (simp_all add: upt_conv_Cons del: upt_Suc)
  have c: "deploymentStep_create ?row (w\<lparr>ids_made := Suc (ids_made w)\<rparr>) = Inr ?w1"
    using d(1) Cons.prems(1)
    by (simp add: deploymentStep_create_def deploymentPresent_def list_ex_key)
  have p1: "deploymentPresent i ?w1" using Cons.prems(1) by (simp add: deploymentPresent_def)
  from Cons.IH [OF p1 d(2), of "Suc k"] c show ?case by auto
qed

section \<open>The response of \<open>POST /deployments\<close>\<close>

lemma find_append_new:
  "i \<notin> set (map key tbl) \<Longrightarrow> key row = i \<Longrightarrow>
   find (\<lambda>r. key r = i) (tbl @ [row]) = Some row"
  by (induction tbl) auto

lemma filter_none:
  "i \<notin> set (map key tbl) \<Longrightarrow> filter (\<lambda>s. key s = i) tbl = []"
  by (induction tbl) auto

lemma post_deployments_created:
  assumes "url \<noteq> []" and "freshIds e w (length (createDeploymentPlan url))"
    and "userPresent userId w"
  shows "\<exists>fd v. post_deployments e userId (Some url) modpackName w = (Created (Some fd), v) \<and>
           d_id fd = cuid e (ids_made w) \<and> d_userId fd = userId \<and> d_modpackUrl fd = url \<and>
           d_status fd = PENDING \<and>
           steps fd = step_rows e (cuid e (ids_made w)) 0 (Suc (ids_made w))
                        (createDeploymentPlan url) \<and>
           stepsOf (cuid e (ids_made w)) v = steps fd \<and>
           map_option d_status (deploymentRow v (cuid e (ids_made w))) = Some PENDING"
proof -
  define i where "i = cuid e (ids_made w)"
  define plan where "plan = createDeploymentPlan url"
  define row where "row =
     \<lparr>d_id = cuid e (ids_made w), d_userId = userId,
      d_modpackName = (if falsy modpackName then extractModpackName url else the modpackName),
      d_modpackUrl = url, d_status = PENDING, d_startedAt = now e w,
      d_completedAt = None, d_duration = None, d_logs = None, d_errorMsg = None\<rparr>"
  let ?w0 = "tick (w\<lparr>ids_made := Suc (ids_made w)\<rparr>)"
  let ?w1 = "?w0\<lparr>db_deployment := db_deployment ?w0 @ [row]\<rparr>"
  from assms(2) have fresh: "i \<notin> set (map d_id (db_deployment w))"
    "i \<notin> set (map s_deploymentId (db_deploymentStep w))"
    "distinct (map s_id (db_deploymentStep w) @
                map (cuid e) [Suc (ids_made w) ..< Suc (ids_made w) + length plan])"
    by (simp_all add: freshIds_def i_def plan_def)
  have rid: "d_id row = i" by (simp add: row_def i_def)
  have ru: "d_userId row = userId" by (simp add: row_def)
  have c: "deployment_create row ?w0 = Inr ?w1"
    using fresh(1) assms(3)
    by (simp add: deployment_create_def list_ex_key tick_def rid ru userPresent_def)
  have p1: "deploymentPresent i ?w1"
    by (simp add: deploymentPresent_def tick_def rid)
  have d1: "distinct (map s_id (db_deploymentStep ?w1) @
                   map (cuid e) [ids_made ?w1 ..< ids_made ?w1 + length plan])"
    using fresh(3) by (simp add: tick_def)
  from create_steps_ok [OF p1 d1, of 0] obtain w2 where w2:
    "create_steps e i 0 plan ?w1 = Inr w2"
    "db_deploymentStep w2 = db_deploymentStep w @ step_rows e i 0 (Suc (ids_made w)) plan"
    "db_deployment w2 = db_deployment w @ [row]"
    by (auto simp: tick_def)
  have f: "find (\<lambda>r. d_id r = i) (db_deployment w2) = Some row"
    unfolding w2(3) using fresh(1) rid by (rule find_append_new)
  have so: "stepsOf i w2 = step_rows e i 0 (Suc (ids_made w)) plan"
    unfolding stepsOf_def w2(2)
    by (simp add: filter_none [OF fresh(2)] step_rows_deploymentId sort_key_id_if_sorted
        step_rows_order sorted_map_int_upt)
  have fu: "findUnique_deployment i w2 =
      Some (with_steps row (step_rows e i 0 (Suc (ids_made w)) plan))"
    using f so rid by (simp add: findUnique_deployment_def)
  have "post_deployments e userId (Some url) modpackName w =
      (case deployment_create row ?w0 of
         Inl (x, w1) \<Rightarrow> (InternalServerError ''Internal server error'', w1)
       | Inr w1 \<Rightarrow>
           (case create_steps e (d_id row) 0 plan w1 of
              Inl (x, w2) \<Rightarrow> (InternalServerError ''Internal server error'', w2)
            | Inr w2 \<Rightarrow> (Created (findUnique_deployment (d_id row) w2), w2)))"
    unfolding post_deployments_def Let_def row_def plan_def option.sel falsy_def
    using assms(1) by simp
  also have "\<dots> = (Created (Some (with_steps row (step_rows e i 0 (Suc (ids_made w)) plan))), w2)"
    unfolding c sum.case rid w2(1) fu ..
  finally have post: "post_deployments e userId (Some url) modpackName w =
      (Created (Some (with_steps row (step_rows e i 0 (Suc (ids_made w)) plan))), w2)" .
  have "map_option d_status (deploymentRow w2 i) = Some PENDING"
    using f by (simp add: deploymentRow_def row_def)
  with post so show ?thesis
    unfolding i_def [symmetric] plan_def [symmetric]
    by (simp add: with_steps_def row_def i_def)
qed


lemma createDeploymentPlan_nonempty: "createDeploymentPlan url \<noteq> []"
  by (simp add: createDeploymentPlan_def basePlan_def splice_insert_def)

lemma small_zip_plan_length:
  "length (createDeploymentPlan ''https://example.com/packs/small.zip'') = 7"
  by (simp add: createDeploymentPlan_def isTech_def basePlan_def)

lemma freshIds_empty: "freshIds env_ok world_empty 7"
  by (simp add: freshIds_def env_ok_def world_empty_def upt_rec char_of_eq_iff)

lemma freshIds_ex: "freshIds env_fail (world_ex PENDING) 7"
  by (simp add: freshIds_def env_fail_def world_ex_def row_ex_def steps_ex_def step_ex_def
      upt_rec char_of_eq_iff)

lemma userPresent_empty: "userPresent ''u1'' world_empty"
  by (simp add: userPresent_def world_empty_def user_ex_def)

lemma userPresent_ex: "userPresent ''u2'' (world_ex PENDING)"
  by (simp add: userPresent_def world_ex_def user_ex_def)

text \<open>
  For a user without a row (one deleted while the token is still valid) the creation
  of the deployment violates the foreign key, and the route answers 500.
\<close>

lemma post_deployments_unknown_user:
  assumes "url \<noteq> []" and "\<not> userPresent userId w"
  shows "fst (post_deployments e userId (Some url) modpackName w) =
           InternalServerError ''Internal server error''"
  using assms
  by (simp add: post_deployments_def falsy_def Let_def deployment_create_def userPresent_def
      tick_def)

text \<open>
  Claim C4. The plan of every descriptor is non-empty. When a user who has a row in the
  store creates a deployment for a non-empty descriptor, with identifiers that are new,
  its steps come back with the order indices \<open>0..N-1\<close>, each once, and with the names
  of the plan in the plan's order; a second creation for the same descriptor, by any
  such user in any such world, gives the same names in the same order and the same
  indices.
\<close>

theorem plan_order_indices:
  assumes "url \<noteq> []"
    and "freshIds e w (length (createDeploymentPlan url))" and "userPresent userId w"
    and "freshIds e' w' (length (createDeploymentPlan url))" and "userPresent userId' w'"
  shows "createDeploymentPlan anyUrl \<noteq> [] \<and>
         (\<exists>fd v fd' v'.
            post_deployments e userId (Some url) modpackName w = (Created (Some fd), v) \<and>
            post_deployments e' userId' (Some url) modpackName' w' = (Created (Some fd'), v') \<and>
            steps fd \<noteq> [] \<and>
            map s_order (steps fd) = map int [0 ..< length (steps fd)] \<and>
            distinct (map s_order (steps fd)) \<and>
            map s_name (steps fd) = map name (createDeploymentPlan url) \<and>
            map s_name (steps fd') = map s_name (steps fd) \<and>
            map s_order (steps fd') = map s_order (steps fd))"
proof -
  from post_deployments_created [OF assms(1,2,3), of modpackName] obtain fd v where a:
    "post_deployments e userId (Some url) modpackName w = (Created (Some fd), v)"
    "steps fd = step_rows e (cuid e (ids_made w)) 0 (Suc (ids_made w)) (createDeploymentPlan url)"
    by blast
  from post_deployments_created [OF assms(1,4,5), of modpackName'] obtain fd' v' where b:
    "post_deployments e' userId' (Some url) modpackName' w' = (Created (Some fd'), v')"
    "steps fd' = step_rows e' (cuid e' (ids_made w')) 0 (Suc (ids_made w')) (createDeploymentPlan url)"
    by blast
  have 1: "steps fd \<noteq> []"
    using createDeploymentPlan_nonempty [of url] unfolding a(2)
    by (cases "createDeploymentPlan url") simp_all
  have 2: "map s_order (steps fd) = map int [0 ..< length (steps fd)]"
    unfolding a(2) by (simp add: step_rows_order)
  have 3: "distinct (map s_order (steps fd))"
    unfolding 2 by (rule distinct_map_int_upt)
  have 4: "map s_name (steps fd) = map name (createDeploymentPlan url)"
    unfolding a(2) by (rule step_rows_name)
  have 5: "map s_name (steps fd') = map s_name (steps fd)"
    unfolding a(2) b(2) by (simp add: step_rows_name)
  have 6: "map s_order (steps fd') = map s_order (steps fd)"
    unfolding a(2) b(2) by (simp add: step_rows_order)
  from a(1) b(1) 1 2 3 4 5 6 createDeploymentPlan_nonempty show ?thesis by blast
qed

theorem plan_order_indices_witness:
  "''https://example.com/packs/small.zip'' \<noteq> [] \<and>
   freshIds env_ok world_empty (length (createDeploymentPlan ''https://example.com/packs/small.zip'')) \<and>
   userPresent ''u1'' world_empty \<and>
   freshIds env_fail (world_ex PENDING)
     (length (createDeploymentPlan ''https://example.com/packs/small.zip'')) \<and>
   userPresent ''u2'' (world_ex PENDING) \<and>
   createDeploymentPlan [] \<noteq> [] \<and>
   (\<exists>fd v fd' v'.
      post_deployments env_ok ''u1'' (Some ''https://example.com/packs/small.zip'') None world_empty =
        (Created (Some fd), v) \<and>
      post_deployments env_fail ''u2'' (Some ''https://example.com/packs/small.zip'') (Some ''Small'')
        (world_ex PENDING) = (Created (Some fd'), v') \<and>
      steps fd \<noteq> [] \<and>
      map s_order (steps fd) = map int [0 ..< length (steps fd)] \<and>
      distinct (map s_order (steps fd)) \<and>
      map s_name (steps fd) = map name (createDeploymentPlan ''https://example.com/packs/small.zip'') \<and>
      map s_name (steps fd') = map s_name (steps fd) \<and>
      map s_order (steps fd') = map s_order (steps fd))"
proof -
  have h1: "''https://example.com/packs/small.zip'' \<noteq> []" by simp
  have h2: "freshIds env_ok world_empty
      (length (createDeploymentPlan ''https://example.com/packs/small.zip''))"
    unfolding small_zip_plan_length by (rule freshIds_empty)
  have h3: "freshIds env_fail (world_ex PENDING)
      (length (createDeploymentPlan ''https://example.com/packs/small.zip''))"
    unfolding small_zip_plan_length by (rule freshIds_ex)
  show ?thesis
    by (intro conjI h1 h2 userPresent_empty h3 userPresent_ex
        plan_order_indices [OF h1 h2 userPresent_empty h3 userPresent_ex, THEN conjunct1]
        plan_order_indices [OF h1 h2 userPresent_empty h3 userPresent_ex, THEN conjunct2])
qed

text \<open>
  Claim C5. When a user who has a row in the store creates a deployment for
  \<open>https://example.com/packs/small.zip\<close>, with identifiers that are new, the route
  returns the deployment with exactly the seven steps
  Validate URL, Download Modpack, Extract Files, Install Forge/Fabric, Configure Server,
  Allocate Resources, Start Server, in this order; every step and the deployment itself
  have status \<open>PENDING\<close>, in the response and in the store.
\<close>

theorem small_zip_plan:
  assumes "freshIds e w 7" and "userPresent userId w"
  shows "\<exists>fd v.
           post_deployments e userId (Some ''https://example.com/packs/small.zip'') modpackName w =
             (Created (Some fd), v) \<and>
           map s_name (steps fd) =
             [''Validate URL'', ''Download Modpack'', ''Extract Files'', ''Install Forge/Fabric'',
              ''Configure Server'', ''Allocate Resources'', ''Start Server''] \<and>
           map s_status (steps fd) = replicate 7 PENDING \<and>
           d_status fd = PENDING \<and>
           stepsOf (d_id fd) v = steps fd \<and>
           map_option d_status (deploymentRow v (d_id fd)) = Some PENDING"
proof -
  let ?url = "''https://example.com/packs/small.zip''"
  have n: "map name (createDeploymentPlan ?url) =
             [''Validate URL'', ''Download Modpack'', ''Extract Files'', ''Install Forge/Fabric'',
              ''Configure Server'', ''Allocate Resources'', ''Start Server'']"
    by (simp add: createDeploymentPlan_def isTech_def basePlan_def)
  have h1: "?url \<noteq> []" by simp
  have h2: "freshIds e w (length (createDeploymentPlan ?url))"
    unfolding small_zip_plan_length by (rule assms(1))
  from post_deployments_created [OF h1 h2 assms(2), of modpackName] obtain fd v where a:
    "post_deployments e userId (Some ?url) modpackName w = (Created (Some fd), v)"
    "d_id fd = cuid e (ids_made w)" "d_status fd = PENDING"
    "steps fd = step_rows e (cuid e (ids_made w)) 0 (Suc (ids_made w)) (createDeploymentPlan ?url)"
    "stepsOf (cuid e (ids_made w)) v = steps fd"
    "map_option d_status (deploymentRow v (cuid e (ids_made w))) = Some PENDING"
    by blast
  have 1: "map s_name (steps fd) =
             [''Validate URL'', ''Download Modpack'', ''Extract Files'', ''Install Forge/Fabric'',
              ''Configure Server'', ''Allocate Resources'', ''Start Server'']"
    unfolding a(4) step_rows_name by (rule n)
  have 2: "map s_status (steps fd) = replicate 7 PENDING"
    unfolding a(4) step_rows_status small_zip_plan_length ..
  note 3 = a(5,6) [folded a(2)]
  show ?thesis
    by (intro exI [of _ fd] exI [of _ v] conjI) (fact a(1) 1 2 a(3) 3)+
qed

theorem small_zip_plan_witness:
  "freshIds env_ok world_empty 7 \<and> userPresent ''u1'' world_empty \<and>
   (\<exists>fd v.
      post_deployments env_ok ''u1'' (Some ''https://example.com/packs/small.zip'') None world_empty =
        (Created (Some fd), v) \<and>
      map s_name (steps fd) =
        [''Validate URL'', ''Download Modpack'', ''Extract Files'', ''Install Forge/Fabric'',
         ''Configure Server'', ''Allocate Resources'', ''Start Server''] \<and>
      map s_status (steps fd) = replicate 7 PENDING \<and>
      d_status fd = PENDING \<and>
      stepsOf (d_id fd) v = steps fd \<and>
      map_option d_status (deploymentRow v (d_id fd)) = Some PENDING)"
  by (intro conjI freshIds_empty userPresent_empty
      small_zip_plan [OF freshIds_empty userPresent_empty])


section \<open>The plan\<close>

text \<open>
  Claim C10. For every modpack URL the plan has exactly the seven base steps, unless the
  URL contains \<open>tekkit\<close> or \<open>industrialcraft\<close>: then it has eight, with
  \<open>Install Tech Mods\<close> at index 4. The substrings \<open>rlcraft\<close> and \<open>all-the-mods\<close> change
  the estimated duration of \<open>Download Modpack\<close> from 20 to 45 and nothing else: the
  names and the other durations do not depend on them.
\<close>

theorem createDeploymentPlan_shape:
  "map name (createDeploymentPlan url) =
     (if includes_str url ''tekkit'' \<or> includes_str url ''industrialcraft''
      then [''Validate URL'', ''Download Modpack'', ''Extract Files'', ''Install Forge/Fabric'',
            ''Install Tech Mods'', ''Configure Server'', ''Allocate Resources'', ''Start Server'']
      else [''Validate URL'', ''Download Modpack'', ''Extract Files'', ''Install Forge/Fabric'',
            ''Configure Server'', ''Allocate Resources'', ''Start Server''])
   \<and> map estimatedDuration (createDeploymentPlan url) =
     (if includes_str url ''tekkit'' \<or> includes_str url ''industrialcraft''
      then [3, if includes_str url ''rlcraft'' \<or> includes_str url ''all-the-mods'' then 45 else 20,
            10, 15, 12, 8, 5, 20]
      else [3, if includes_str url ''rlcraft'' \<or> includes_str url ''all-the-mods'' then 45 else 20,
            10, 15, 8, 5, 20])"
  by (simp add: createDeploymentPlan_def isTech_def isLarge_def splice_insert_def basePlan_def
      techStep_def)

end
